theory Spec2Isabelle
  imports Main "HOL-Library.Char_ord" "HOL-Library.List_Lexorder"
begin

section \<open>The ordered store and its iterator\<close>

text \<open>
  Keys and values are byte sequences (\<open>[]byte\<close>); a \<open>char\<close> is one byte, and the order
  on keys is the bytewise lexicographic order of the store's default comparer
  (\<open>HOL-Library.Char_ord\<close> with \<open>HOL-Library.List_Lexorder\<close>).

  The store (\<open>*leveldb.DB\<close>) is a collaborator of the program, not part of it. It is
  modelled as the list of its entries in iteration order, together with the index of an
  entry that cannot be read (a damaged block), if there is one: every iterator that moves
  onto that entry reports an error through \<open>iter.Error()\<close>, and a point lookup of its key
  fails.
\<close>

datatype error = ErrNotFound | ErrCorrupted | ErrFS string

fun Error :: "error \<Rightarrow> string" where
  "Error ErrNotFound = ''leveldb: not found''"
| "Error ErrCorrupted = ''leveldb: corruption''"
| "Error (ErrFS msg) = msg"

record leveldb =
  entries :: "(string \<times> string) list"
  damaged :: "nat option"

definition store_keys :: "leveldb \<Rightarrow> string list" where
  "store_keys d = map fst (entries d)"

text \<open>Position of an iterator: before the first entry, on entry \<open>i\<close>, or past the last.\<close>

datatype dir = dirSOI | dirForward nat | dirEOI

record iterator =
  ents :: "(string \<times> string) list"
  bad :: "nat option"
  idir :: dir
  err :: "error option"

definition db_NewIterator :: "leveldb \<Rightarrow> iterator" where
  "db_NewIterator d = \<lparr>ents = entries d, bad = damaged d, idir = dirSOI, err = None\<rparr>"

text \<open>Moving onto entry \<open>n\<close>: past the end, onto the damaged entry, or onto a readable one.\<close>

definition moveTo :: "nat \<Rightarrow> iterator \<Rightarrow> bool \<times> iterator" where
  "moveTo n it =
     (if length (ents it) \<le> n then (False, it\<lparr>idir := dirEOI\<rparr>)
      else if bad it = Some n then (False, it\<lparr>err := Some ErrCorrupted\<rparr>)
      else (True, it\<lparr>idir := dirForward n\<rparr>))"

definition iter_Next :: "iterator \<Rightarrow> bool \<times> iterator" where
  "iter_Next it =
     (if err it \<noteq> None then (False, it)
      else case idir it of
             dirEOI \<Rightarrow> (False, it)
           | dirSOI \<Rightarrow> moveTo 0 it
           | dirForward i \<Rightarrow> moveTo (Suc i) it)"

definition iter_Valid :: "iterator \<Rightarrow> bool" where
  "iter_Valid it = (err it = None \<and> (case idir it of dirForward i \<Rightarrow> True | _ \<Rightarrow> False))"

definition iter_Key :: "iterator \<Rightarrow> string" where
  "iter_Key it =
     (case idir it of
        dirForward i \<Rightarrow> (if i < length (ents it) then fst (ents it ! i) else [])
      | _ \<Rightarrow> [])"

definition iter_Error :: "iterator \<Rightarrow> error option" where
  "iter_Error it = err it"

text \<open>\<open>Seek(key)\<close> moves onto the first entry whose key is greater than or equal to \<open>key\<close>.\<close>

definition seekIndex :: "string \<Rightarrow> (string \<times> string) list \<Rightarrow> nat" where
  "seekIndex k es = length (takeWhile (\<lambda>e. fst e < k) es)"

definition iter_Seek :: "string \<Rightarrow> iterator \<Rightarrow> bool \<times> iterator" where
  "iter_Seek k it =
     (if err it \<noteq> None then (False, it) else moveTo (seekIndex k (ents it)) it)"

definition db_Get :: "leveldb \<Rightarrow> string \<Rightarrow> error + string" where
  "db_Get d k =
     (case map_of (entries d) k of
        None \<Rightarrow> Inl ErrNotFound
      | Some v \<Rightarrow>
          (if damaged d = Some (length (takeWhile (\<lambda>e. fst e \<noteq> k) (entries d)))
           then Inl ErrCorrupted else Inr v))"

section \<open>Session state\<close>

text \<open>
  The package-level variables of \<open>main.go\<close> that the pager, the value view and the export
  read or write. \<open>keyList\<close> and \<open>currentItem\<close> are the items and the selection of the list
  widget, \<open>valueView\<close> the text of the value panel, \<open>statusMessage\<close> the status line.
  \<open>pageSize\<close> is a variable of the program, set to 100 and never assigned again; the
  counts it is compared with are lengths, so it is a \<open>nat\<close> here. The timer of \<open>setStatus\<close>,
  the titles and the callbacks of the widgets belong to the event loop and are left out.
  \<open>strings.ToLower\<close> depends on the Unicode case tables, which are not part of the
  program: the functions below take it as the parameter \<open>ToLower\<close>.
\<close>

record session =
  pageSize :: nat
  currentPosition :: nat
  displayedKeys :: "string list"
  currentPrefix :: string
  db :: leveldb
  statusMessage :: string
  keyList :: "string list"
  currentItem :: int
  valueView :: string
  hasMoreKeys :: bool

definition setStatus :: "string \<Rightarrow> session \<Rightarrow> session" where
  "setStatus message s = s\<lparr>statusMessage := message\<rparr>"

section \<open>Filter\<close>

fun strings_Contains :: "string \<Rightarrow> string \<Rightarrow> bool" where
  "strings_Contains [] substr = (substr = [])"
| "strings_Contains (c # s) substr =
     (take (length substr) (c # s) = substr \<or> strings_Contains s substr)"

text \<open>The condition of lines 251, 281 and 318: the case-insensitive substring search.\<close>

definition matches :: "(string \<Rightarrow> string) \<Rightarrow> string \<Rightarrow> string \<Rightarrow> bool" where
  "matches ToLower prefix keyStr =
     (prefix = [] \<or> strings_Contains (ToLower keyStr) (ToLower prefix))"

text \<open>\<open>strings.ToLower\<close> on ASCII input (its fast path): \<open>A\<close>..\<open>Z\<close> become \<open>a\<close>..\<open>z\<close>.\<close>

definition asciiLower :: "string \<Rightarrow> string" where
  "asciiLower s =
     map (\<lambda>c. if 65 \<le> (of_char c :: nat) \<and> (of_char c :: nat) \<le> 90
              then char_of ((of_char c :: nat) + 32) else c) s"

section \<open>Pager\<close>

definition remaining :: "iterator \<Rightarrow> nat" where
  "remaining it =
     (if err it \<noteq> None then 0
      else case idir it of
             dirSOI \<Rightarrow> length (ents it) + 2
           | dirForward i \<Rightarrow> length (ents it) - i + 1
           | dirEOI \<Rightarrow> 0)"

lemma remaining_Next: "fst (iter_Next it) \<Longrightarrow> remaining (snd (iter_Next it)) < remaining it"
  by (auto simp: iter_Next_def moveTo_def remaining_def split: dir.splits if_splits)

lemma remaining_Next_Valid: "iter_Valid it \<Longrightarrow> remaining (snd (iter_Next it)) < remaining it"
  by (auto simp: iter_Next_def iter_Valid_def moveTo_def remaining_def split: dir.splits if_splits)

definition addKey :: "string \<Rightarrow> session \<Rightarrow> session" where
  "addKey key s = s\<lparr>displayedKeys := displayedKeys s @ [key], keyList := keyList s @ [key]\<rparr>"

function loadInitialKeys_loop ::
  "(string \<Rightarrow> string) \<Rightarrow> session \<Rightarrow> iterator \<Rightarrow> session \<times> iterator" where
  "loadInitialKeys_loop ToLower s it =
     (if fst (iter_Next it) then
        (let it' = snd (iter_Next it); key = iter_Key it' in
         if matches ToLower (currentPrefix s) key then
           (if pageSize s \<le> length (displayedKeys (addKey key s)) then (addKey key s, it')
            else loadInitialKeys_loop ToLower (addKey key s) it')
         else loadInitialKeys_loop ToLower s it')
      else (s, snd (iter_Next it)))"
  by pat_completeness auto
termination
  by (relation "measure (\<lambda>(ToLower, s, it). remaining it)") (auto simp: remaining_Next)

definition loadInitialKeys :: "(string \<Rightarrow> string) \<Rightarrow> session \<Rightarrow> session" where
  "loadInitialKeys ToLower s =
     (let s1 = s\<lparr>keyList := [], currentItem := 0, currentPosition := 0,
                 displayedKeys := [], hasMoreKeys := True\<rparr>;
          iter = db_NewIterator (db s1);
          (s2, iter2) = loadInitialKeys_loop ToLower s1 iter;
          (more, iter3) = iter_Next iter2;
          s3 = s2\<lparr>hasMoreKeys := more\<rparr>
      in case iter_Error iter3 of
           Some e \<Rightarrow> setStatus (''[red]Error: '' @ Error e) s3
         | None \<Rightarrow> s3)"

function loadNextPage_loop ::
  "(string \<Rightarrow> string) \<Rightarrow> session \<Rightarrow> iterator \<Rightarrow> nat \<Rightarrow> session \<times> iterator \<times> nat" where
  "loadNextPage_loop ToLower s it count =
     (if iter_Valid it \<and> count < pageSize s then
        (let key = iter_Key it in
         if matches ToLower (currentPrefix s) key
         then loadNextPage_loop ToLower (addKey key s) (snd (iter_Next it)) (count + 1)
         else loadNextPage_loop ToLower s (snd (iter_Next it)) count)
      else (s, it, count))"
  by pat_completeness auto
termination
  by (relation "measure (\<lambda>(ToLower, s, it, count). remaining it)")
     (auto simp: remaining_Next_Valid addKey_def)

definition loadNextPage :: "(string \<Rightarrow> string) \<Rightarrow> session \<Rightarrow> bool \<times> session" where
  "loadNextPage ToLower s =
     (if \<not> hasMoreKeys s \<or> length (displayedKeys s) = 0 then (False, s)
      else
        (let lastKey = last (displayedKeys s);
             iter = db_NewIterator (db s);
             (found, iter1) = iter_Seek lastKey iter
         in if found then
              (let iter2 = snd (iter_Next iter1);
                   (s', iter3, count) = loadNextPage_loop ToLower s iter2 0
               in (0 < count, s'\<lparr>hasMoreKeys := iter_Valid iter3\<rparr>))
            else (False, s)))"

declare loadInitialKeys_loop.simps [simp del] loadNextPage_loop.simps [simp del]

section \<open>Value renderer\<close>

text \<open>
  Runes are \<open>int\<close> (Go's \<open>rune\<close> is \<open>int32\<close>), bytes are read as numbers by \<open>byte\<close>.
  \<open>utf8.DecodeRune\<close>, \<open>utf8.EncodeRune\<close> (behind \<open>WriteRune\<close>), \<open>unicode.IsControl\<close>
  and the padding-free \<open>base64.RawStdEncoding\<close> are written out as the standard library
  defines them: the first-byte table and the accept ranges of the decoder appear as
  comparisons, and an invalid or short sequence decodes to \<open>(RuneError, 1)\<close>.
  \<open>json.Valid\<close> and \<open>json.Indent\<close> are parameters of \<open>formatValue\<close>.
\<close>

definition RuneError :: int where
  "RuneError = 0xFFFD"

definition byte :: "char \<Rightarrow> int" where
  "byte c = of_char c"

fun utf8_DecodeRune :: "string \<Rightarrow> int \<times> nat" where
  "utf8_DecodeRune [] = (RuneError, 0)"
| "utf8_DecodeRune (c0 # p) =
     (let p0 = byte c0 in
      if p0 < 0x80 then (p0, 1)
      else if p0 < 0xC2 \<or> 0xF4 < p0 then (RuneError, 1)
      else
        (let sz = (if p0 < 0xE0 then 2 else if p0 < 0xF0 then 3 else 4 :: nat);
             lo = (if p0 = 0xE0 then 0xA0 else if p0 = 0xF0 then 0x90 else 0x80);
             hi = (if p0 = 0xED then 0x9F else if p0 = 0xF4 then 0x8F else 0xBF)
         in if length (c0 # p) < sz then (RuneError, 1)
            else
              (let b1 = byte (p ! 0) in
               if b1 < lo \<or> hi < b1 then (RuneError, 1)
               else if sz \<le> 2 then ((p0 mod 0x20) * 0x40 + b1 mod 0x40, 2)
               else
                 (let b2 = byte (p ! 1) in
                  if b2 < 0x80 \<or> 0xBF < b2 then (RuneError, 1)
                  else if sz \<le> 3
                  then ((p0 mod 0x10) * 0x1000 + (b1 mod 0x40) * 0x40 + b2 mod 0x40, 3)
                  else
                    (let b3 = byte (p ! 2) in
                     if b3 < 0x80 \<or> 0xBF < b3 then (RuneError, 1)
                     else ((p0 mod 8) * 0x40000 + (b1 mod 0x40) * 0x1000
                             + (b2 mod 0x40) * 0x40 + b3 mod 0x40, 4))))))"

definition utf8_EncodeRune :: "int \<Rightarrow> string" where
  "utf8_EncodeRune r =
     (if 0 \<le> r \<and> r \<le> 0x7F then [char_of r]
      else if 0 \<le> r \<and> r \<le> 0x7FF
      then [char_of (0xC0 + r div 0x40), char_of (0x80 + r mod 0x40)]
      else
        (let r = (if r < 0 \<or> 0x10FFFF < r \<or> (0xD800 \<le> r \<and> r \<le> 0xDFFF)
                  then RuneError else r) in
         if r \<le> 0xFFFF
         then [char_of (0xE0 + r div 0x1000), char_of (0x80 + (r div 0x40) mod 0x40),
               char_of (0x80 + r mod 0x40)]
         else [char_of (0xF0 + r div 0x40000), char_of (0x80 + (r div 0x1000) mod 0x40),
               char_of (0x80 + (r div 0x40) mod 0x40), char_of (0x80 + r mod 0x40)]))"

text \<open>\<open>utf8.ValidRune\<close>: the code points that have an encoding (the surrogates have none).\<close>

definition utf8_ValidRune :: "int \<Rightarrow> bool" where
  "utf8_ValidRune r = ((0 \<le> r \<and> r < 0xD800) \<or> (0xDFFF < r \<and> r \<le> 0x10FFFF))"

definition unicode_IsControl :: "int \<Rightarrow> bool" where
  "unicode_IsControl r = ((0 \<le> r \<and> r < 0x20) \<or> (0x7F \<le> r \<and> r \<le> 0x9F))"

definition encodeStd :: string where
  "encodeStd = ''ABCDEFGHIJKLMNOPQRSTUVWXYZabcdefghijklmnopqrstuvwxyz0123456789+/''"

fun base64_RawStdEncoding :: "string \<Rightarrow> string" where
  "base64_RawStdEncoding (a # b # c # src) =
     [encodeStd ! nat (byte a div 4),
      encodeStd ! nat ((byte a mod 4) * 16 + byte b div 16),
      encodeStd ! nat ((byte b mod 16) * 4 + byte c div 64),
      encodeStd ! nat (byte c mod 64)] @ base64_RawStdEncoding src"
| "base64_RawStdEncoding [a, b] =
     [encodeStd ! nat (byte a div 4),
      encodeStd ! nat ((byte a mod 4) * 16 + byte b div 16),
      encodeStd ! nat ((byte b mod 16) * 4)]"
| "base64_RawStdEncoding [a] =
     [encodeStd ! nat (byte a div 4), encodeStd ! nat ((byte a mod 4) * 16)]"
| "base64_RawStdEncoding [] = []"

definition flushBinary :: "string \<times> string \<Rightarrow> string \<times> string" where
  "flushBinary rb =
     (case rb of (result, binaryBuffer) \<Rightarrow>
        if 0 < length binaryBuffer
        then (result @ ''[b64:'' @ base64_RawStdEncoding binaryBuffer @ '']'', [])
        else (result, binaryBuffer))"

lemma utf8_DecodeRune_size: "p \<noteq> [] \<Longrightarrow> 0 < snd (utf8_DecodeRune p)"
  by (cases p) (auto simp: Let_def)

lemma utf8_DecodeRune_advance:
  "pos < length value \<Longrightarrow>
   length value - (pos + snd (utf8_DecodeRune (drop pos value))) < length value - pos"
  using utf8_DecodeRune_size[of "drop pos value"] by simp

function mixedContentDisplay_loop :: "string \<Rightarrow> nat \<Rightarrow> string \<times> string \<Rightarrow> string \<times> string" where
  "mixedContentDisplay_loop value pos rb =
     (if pos < length value then
        (let r = fst (utf8_DecodeRune (drop pos value));
             size = snd (utf8_DecodeRune (drop pos value))
         in if r = RuneError \<and> size = 1
            then mixedContentDisplay_loop value (pos + 1) (fst rb, snd rb @ [value ! pos])
            else if unicode_IsControl r
            then mixedContentDisplay_loop value (pos + size)
                   (fst rb, snd rb @ take size (drop pos value))
            else mixedContentDisplay_loop value (pos + size)
                   (fst (flushBinary rb) @ utf8_EncodeRune r, snd (flushBinary rb)))
      else rb)"
  by pat_completeness auto
termination
  by (relation "measure (\<lambda>(value, pos, rb). length value - pos)")
     (auto simp: utf8_DecodeRune_advance)

declare mixedContentDisplay_loop.simps [simp del]

definition mixedContentDisplay :: "string \<Rightarrow> string" where
  "mixedContentDisplay value = fst (flushBinary (mixedContentDisplay_loop value 0 ([], [])))"

definition formatValue :: "(string \<Rightarrow> bool) \<Rightarrow> (string \<Rightarrow> string option) \<Rightarrow> string \<Rightarrow> string" where
  "formatValue json_Valid json_Indent value =
     (if json_Valid value then
        (case json_Indent value of
           Some prettyJSON \<Rightarrow> prettyJSON
         | None \<Rightarrow> mixedContentDisplay value)
      else mixedContentDisplay value)"

definition showKeyValue ::
  "(string \<Rightarrow> bool) \<Rightarrow> (string \<Rightarrow> string option) \<Rightarrow> string \<Rightarrow> session \<Rightarrow> session" where
  "showKeyValue json_Valid json_Indent key s =
     (case db_Get (db s) key of
        Inl e \<Rightarrow> s\<lparr>valueView := ''[red]Error: '' @ Error e\<rparr>
      | Inr value \<Rightarrow>
          if length value = 0
          then s\<lparr>valueView := ''[white]Key[::-]: '' @ key @ [CHR 0x0A, CHR 0x0A]
                                 @ ''[white]Value[::-]: (empty)''\<rparr>
          else s\<lparr>valueView := ''[white]Key[::-]: '' @ key @ [CHR 0x0A, CHR 0x0A]
                                 @ ''[white]Value[::-]: ''
                                 @ formatValue json_Valid json_Indent value\<rparr>)"

section \<open>Export\<close>

text \<open>
  The file system is the other collaborator: the directories and files that exist, and
  what \<open>os.MkdirAll\<close> and \<open>os.WriteFile\<close> will answer (an error, or success).
\<close>

record filesystem =
  dirs :: "string set"
  files :: "string \<Rightarrow> string option"
  mkdirError :: "error option"
  writeError :: "error option"

definition os_MkdirAll :: "string \<Rightarrow> filesystem \<Rightarrow> error + filesystem" where
  "os_MkdirAll path fs =
     (case mkdirError fs of
        Some e \<Rightarrow> Inl e
      | None \<Rightarrow> Inr (fs\<lparr>dirs := insert path (dirs fs)\<rparr>))"

definition os_WriteFile :: "string \<Rightarrow> string \<Rightarrow> filesystem \<Rightarrow> error + filesystem" where
  "os_WriteFile name data fs =
     (case writeError fs of
        Some e \<Rightarrow> Inl e
      | None \<Rightarrow> Inr (fs\<lparr>files := (files fs)(name \<mapsto> data)\<rparr>))"

text \<open>
  \<open>filepath.Join\<close> of a directory and a file name that holds no separator and is not a
  dot element: nothing for \<open>Clean\<close> to change. The separator is the one of Unix.
\<close>

definition filepath_Join :: "string \<Rightarrow> string \<Rightarrow> string" where
  "filepath_Join dir name = dir @ ''/'' @ name"

text \<open>
  \<open>strings.Map\<close>: the string is read rune by rune (an invalid byte reads as
  \<open>utf8.RuneError\<close>), and the mapped runes are written out in UTF-8; a rune mapped to a
  negative value is dropped.
\<close>

function strings_Map :: "(int \<Rightarrow> int) \<Rightarrow> string \<Rightarrow> string" where
  "strings_Map mapping s =
     (if s = [] then []
      else (if mapping (fst (utf8_DecodeRune s)) < 0 then []
            else utf8_EncodeRune (mapping (fst (utf8_DecodeRune s))))
             @ strings_Map mapping (drop (snd (utf8_DecodeRune s)) s))"
  by pat_completeness auto
termination
  by (relation "measure (\<lambda>(mapping, s). length s)")
     (use utf8_DecodeRune_size in \<open>auto simp: Suc_le_eq\<close>)

declare strings_Map.simps [simp del]

text \<open>The function literal of lines 395 to 401.\<close>

definition replaceForbidden :: "int \<Rightarrow> int" where
  "replaceForbidden r =
     (if r < 32 \<or> r = 0x2F \<or> r = 0x5C \<or> r = 0x3A \<or> r = 0x2A \<or>
         r = 0x3F \<or> r = 0x22 \<or> r = 0x3C \<or> r = 0x3E \<or> r = 0x7C
      then 0x5F else r)"

definition dumpCurrentKey ::
  "(string \<Rightarrow> bool) \<Rightarrow> (string \<Rightarrow> string option) \<Rightarrow> session \<Rightarrow> filesystem
     \<Rightarrow> session \<times> filesystem" where
  "dumpCurrentKey json_Valid json_Indent s fs =
     (let currentIndex = currentItem s in
      if currentIndex < 0 \<or> int (length (displayedKeys s)) \<le> currentIndex
      then (setStatus ''[red]Invalid selection'' s, fs)
      else
        (let key = displayedKeys s ! nat currentIndex in
         case db_Get (db s) key of
           Inl e \<Rightarrow> (setStatus (''[red]Error: '' @ Error e) s, fs)
         | Inr value \<Rightarrow>
             (let dir = ''leveldb_dump'' in
              case os_MkdirAll dir fs of
                Inl e \<Rightarrow> (setStatus (''[red]Error creating directory: '' @ Error e) s, fs)
              | Inr fs1 \<Rightarrow>
                  (let filename = strings_Map replaceForbidden key;
                       filePath = filepath_Join dir (filename @ ''.txt'');
                       formattedValue = formatValue json_Valid json_Indent value;
                       content = ''Key: '' @ key @ [CHR 0x0A, CHR 0x0A] @ ''Value: ''
                                   @ formattedValue
                   in case os_WriteFile filePath content fs1 of
                        Inl e \<Rightarrow> (setStatus (''[red]Error writing file: '' @ Error e) s, fs1)
                      | Inr fs2 \<Rightarrow> (setStatus (''[green]Dumped to '' @ filePath) s, fs2)))))"

section \<open>Character classes used in the statements\<close>

definition printableASCII :: "char \<Rightarrow> bool" where
  "printableASCII c = (0x20 \<le> byte c \<and> byte c \<le> 0x7E)"

definition forbiddenChars :: "char list" where
  "forbiddenChars =
     [CHR 0x2F, CHR 0x5C, CHR 0x3A, CHR 0x2A, CHR 0x3F, CHR 0x22, CHR 0x3C, CHR 0x3E, CHR 0x7C]"

text \<open>
  What the export is expected to write for one character of a key: an underscore for a
  character below \<open>U+0020\<close> and for each of the nine characters above, the character itself
  (its UTF-8 encoding) for every other one.
\<close>

definition sanitizedRune :: "int \<Rightarrow> string" where
  "sanitizedRune r =
     (if r < 32 \<or> r \<in> {0x2F, 0x5C, 0x3A, 0x2A, 0x3F, 0x22, 0x3C, 0x3E, 0x7C}
      then ''_'' else utf8_EncodeRune r)"

section \<open>Vocabulary of the statements about the pager\<close>

text \<open>
  \<open>extendTimes n\<close> is \<open>n\<close> successive calls of \<open>loadNextPage\<close>. The other definitions
  describe a scan independently of the iterator: \<open>scanKeys P r ks\<close> walks the keys \<open>ks\<close>,
  collects those that satisfy \<open>P\<close> and stops right after the \<open>r\<close>-th; it returns the
  collected keys and the keys it did not reach. \<open>keysFrom it n\<close> are the keys an iterator
  delivers when it moves onto entry \<open>n\<close> and on from there (up to the damaged entry, if it
  lies ahead), \<open>upcoming it\<close> the keys its next calls of \<open>Next\<close> deliver, and
  \<open>visibleKeys d n\<close> the same for a fresh iterator of the store \<open>d\<close>.
\<close>

fun scanKeys :: "(string \<Rightarrow> bool) \<Rightarrow> nat \<Rightarrow> string list \<Rightarrow> string list \<times> string list" where
  "scanKeys P 0 ks = ([], ks)"
| "scanKeys P (Suc r) [] = ([], [])"
| "scanKeys P (Suc r) (k # ks) =
     (if P k then (k # fst (scanKeys P r ks), snd (scanKeys P r ks))
      else scanKeys P (Suc r) ks)"

definition readLimit :: "iterator \<Rightarrow> nat \<Rightarrow> nat" where
  "readLimit it n =
     (case bad it of
        Some d \<Rightarrow> if n \<le> d \<and> d < length (ents it) then d else length (ents it)
      | None \<Rightarrow> length (ents it))"

definition keysFrom :: "iterator \<Rightarrow> nat \<Rightarrow> string list" where
  "keysFrom it n = take (readLimit it n - n) (drop n (map fst (ents it)))"

definition upcoming :: "iterator \<Rightarrow> string list" where
  "upcoming it =
     (if err it \<noteq> None then []
      else case idir it of
             dirSOI \<Rightarrow> keysFrom it 0
           | dirForward i \<Rightarrow> keysFrom it (Suc i)
           | dirEOI \<Rightarrow> [])"

fun extendTimes :: "(string \<Rightarrow> string) \<Rightarrow> nat \<Rightarrow> session \<Rightarrow> session" where
  "extendTimes ToLower 0 s = s"
| "extendTimes ToLower (Suc n) s = snd (loadNextPage ToLower (extendTimes ToLower n s))"

definition visibleKeys :: "leveldb \<Rightarrow> nat \<Rightarrow> string list" where
  "visibleKeys d n = keysFrom (db_NewIterator d) n"

definition budget :: "session \<Rightarrow> nat" where
  "budget s = max 1 (pageSize s - length (displayedKeys s))"

text \<open>What the loops leave untouched.\<close>

definition sameSettings :: "session \<Rightarrow> session \<Rightarrow> bool" where
  "sameSettings s s' =
     (pageSize s' = pageSize s \<and> currentPrefix s' = currentPrefix s \<and> db s' = db s \<and>
      statusMessage s' = statusMessage s \<and> currentItem s' = currentItem s \<and>
      valueView s' = valueView s \<and> currentPosition s' = currentPosition s \<and>
      hasMoreKeys s' = hasMoreKeys s)"

section \<open>Example sessions\<close>

text \<open>
  The initial values of the package-level variables, for a given page size, filter text
  and store (the program itself starts with page size 100 and an empty filter).
\<close>

definition initSession :: "nat \<Rightarrow> string \<Rightarrow> leveldb \<Rightarrow> session" where
  "initSession n f d =
     \<lparr>pageSize = n, currentPosition = 0, displayedKeys = [], currentPrefix = f, db = d,
      statusMessage = [], keyList = [], currentItem = 0, valueView = [], hasMoreKeys = True\<rparr>"

text \<open>Three entries, in store (bytewise) order: \<open>B\<close> sorts before \<open>a\<close>.\<close>

definition fruitStore :: leveldb where
  "fruitStore =
     \<lparr>entries = [(''Banana'', ''2''), (''apple'', ''1''), (''cherry'', ''3'')],
      damaged = None\<rparr>"

text \<open>
  \<open>encoding/json\<close> is a library. For the closed examples, its two functions are fixed to
  what the library answers on the values the examples use: of these, only \<open>[1]\<close> is valid
  JSON, and \<open>json.Indent\<close> with a two-space indent lays it out on three lines.
\<close>

definition sampleJSON_Valid :: "string \<Rightarrow> bool" where
  "sampleJSON_Valid value = (value = ''[1]'')"

definition sampleJSON_Indent :: "string \<Rightarrow> string option" where
  "sampleJSON_Indent value =
     (if value = ''[1]'' then Some (''['' @ [CHR 0x0A] @ ''  1'' @ [CHR 0x0A] @ '']'') else None)"

definition emptyFS :: filesystem where
  "emptyFS = \<lparr>dirs = {}, files = Map.empty, mkdirError = None, writeError = None\<rparr>"

text \<open>
  A store for the export examples: a key with a slash and an empty value, a key that ends
  in DEL (\<open>0x7F\<close>), and a key whose value is JSON.
\<close>

definition exportStore :: leveldb where
  "exportStore =
     \<lparr>entries = [(''a/b'', []), ([CHR 0x61, CHR 0x7F], ''hello''), (''c'', ''[1]'')],
      damaged = None\<rparr>"

definition exportSession :: "int \<Rightarrow> session" where
  "exportSession i = (loadInitialKeys asciiLower (initSession 100 [] exportStore))\<lparr>currentItem := i\<rparr>"

text \<open>
  A store whose only key is not valid UTF-8: the two bytes of \<open>U+0085\<close> (a C1 control
  character) followed by the byte \<open>0xFF\<close>, which no encoding contains.
\<close>

definition binaryKeyStore :: leveldb where
  "binaryKeyStore =
     \<lparr>entries = [([CHR 0xC2, CHR 0x85, CHR 0xFF], ''hello'')], damaged = None\<rparr>"

definition binaryKeySession :: session where
  "binaryKeySession = loadInitialKeys asciiLower (initSession 100 [] binaryKeyStore)"

text \<open>
  A store on which the filter \<open>a\<close> is sparse (its last key does not match), and a store
  whose fourth entry is damaged.
\<close>

definition sparseStore :: leveldb where
  "sparseStore =
     \<lparr>entries = [(''a1'', ''1''), (''a2'', ''2''), (''a3'', ''3''), (''a4'', ''4''), (''b'', ''5'')],
      damaged = None\<rparr>"

definition damagedStore :: leveldb where
  "damagedStore =
     \<lparr>entries = [(''a'', ''1''), (''b'', ''2''), (''c'', ''3''), (''d'', ''4'')],
      damaged = Some 3\<rparr>"

section \<open>The loops of the pager, step by step\<close>

lemma loadNextPage_loop_stop:
  "\<not> (iter_Valid it \<and> c < pageSize s) \<Longrightarrow> loadNextPage_loop L s it c = (s, it, c)"
  by (subst loadNextPage_loop.simps) auto

lemma loadNextPage_loop_match:
  "iter_Valid it \<Longrightarrow> c < pageSize s \<Longrightarrow> matches L (currentPrefix s) (iter_Key it) \<Longrightarrow>
   loadNextPage_loop L s it c =
     loadNextPage_loop L (addKey (iter_Key it) s) (snd (iter_Next it)) (c + 1)"
  by (subst loadNextPage_loop.simps) simp

lemma loadNextPage_loop_skip:
  "iter_Valid it \<Longrightarrow> c < pageSize s \<Longrightarrow> \<not> matches L (currentPrefix s) (iter_Key it) \<Longrightarrow>
   loadNextPage_loop L s it c = loadNextPage_loop L s (snd (iter_Next it)) c"
  by (subst loadNextPage_loop.simps) simp

lemma loadNextPage_loop_length:
  "length (displayedKeys (fst (loadNextPage_loop L s it c))) + c =
     length (displayedKeys s) + snd (snd (loadNextPage_loop L s it c))"
proof (induction L s it c rule: loadNextPage_loop.induct)
  case (1 L s it c)
  show ?case
  proof (cases "iter_Valid it \<and> c < pageSize s")
    case False
    then show ?thesis by (simp add: loadNextPage_loop_stop)
  next
    case True
    show ?thesis
    proof (cases "matches L (currentPrefix s) (iter_Key it)")
      case m: True
      from "1.IH"(1)[OF True refl m] True m show ?thesis
        by (simp add: loadNextPage_loop_match addKey_def)
    next
      case m: False
      from "1.IH"(2)[OF True refl m] True m show ?thesis
        by (simp add: loadNextPage_loop_skip)
    qed
  qed
qed

lemma loadNextPage_returns_appended:
  "fst (loadNextPage L s) \<longleftrightarrow>
     length (displayedKeys s) < length (displayedKeys (snd (loadNextPage L s)))"
proof -
  have "0 < snd (snd (loadNextPage_loop L s it 0)) \<longleftrightarrow>
          length (displayedKeys s) < length (displayedKeys (fst (loadNextPage_loop L s it 0)))" for it
    using loadNextPage_loop_length[of L s it 0] by arith
  then show ?thesis
    by (simp add: loadNextPage_def Let_def split_beta)
qed

section \<open>Extending the page: guard and return value\<close>

text \<open>
  Claim C5. \<open>loadNextPage\<close> changes nothing and returns false whenever \<open>hasMoreKeys\<close> is
  false or no key is displayed; and in every case its return value is true exactly when
  the list of displayed keys became longer, that is when at least one key was appended.
\<close>

theorem loadNextPage_guard_and_return:
  "(\<not> hasMoreKeys s \<or> displayedKeys s = [] \<longrightarrow> loadNextPage L s = (False, s)) \<and>
   (fst (loadNextPage L s) \<longleftrightarrow>
      length (displayedKeys s) < length (displayedKeys (snd (loadNextPage L s))))"
proof
  show "\<not> hasMoreKeys s \<or> displayedKeys s = [] \<longrightarrow> loadNextPage L s = (False, s)"
    by (simp add: loadNextPage_def)
  show "fst (loadNextPage L s) \<longleftrightarrow>
      length (displayedKeys s) < length (displayedKeys (snd (loadNextPage L s)))"
    by (rule loadNextPage_returns_appended)
qed

theorem loadNextPage_guard_and_return_witness:
  "loadNextPage asciiLower (initSession 2 [] fruitStore) = (False, initSession 2 [] fruitStore) \<and>
   fst (loadNextPage asciiLower (loadInitialKeys asciiLower (initSession 2 [] fruitStore))) \<and>
   length (displayedKeys (loadInitialKeys asciiLower (initSession 2 [] fruitStore)))
     < length (displayedKeys (snd (loadNextPage asciiLower
         (loadInitialKeys asciiLower (initSession 2 [] fruitStore)))))"
proof -
  have empty: "displayedKeys (initSession 2 [] fruitStore) = []"
    by (simp add: initSession_def)
  have ret: "fst (loadNextPage asciiLower (loadInitialKeys asciiLower (initSession 2 [] fruitStore)))"
    by code_simp
  from loadNextPage_guard_and_return[of "initSession 2 [] fruitStore" asciiLower] empty
  have "loadNextPage asciiLower (initSession 2 [] fruitStore) = (False, initSession 2 [] fruitStore)"
    by simp
  moreover from loadNextPage_guard_and_return
      [of "loadInitialKeys asciiLower (initSession 2 [] fruitStore)" asciiLower] ret
  have "length (displayedKeys (loadInitialKeys asciiLower (initSession 2 [] fruitStore)))
     < length (displayedKeys (snd (loadNextPage asciiLower
         (loadInitialKeys asciiLower (initSession 2 [] fruitStore)))))"
    by simp
  ultimately show ?thesis using ret by simp
qed

section \<open>Rendering printable ASCII\<close>

lemma byte_range: "0 \<le> byte c \<and> byte c < 256"
proof -
  have e: "byte c mod 256 = byte c"
    unfolding byte_def by (rule of_char_mod_256)
  have "0 \<le> byte c mod 256" and "byte c mod 256 < 256"
    by simp_all
  then show ?thesis unfolding e by simp
qed

lemma char_of_byte: "char_of (byte c) = c"
  by (simp add: byte_def)

lemma byte_char_of: "0 \<le> a \<Longrightarrow> a < 256 \<Longrightarrow> byte (char_of a) = a"
  by (simp add: byte_def)

lemma utf8_DecodeRune_ascii: "byte c < 0x80 \<Longrightarrow> utf8_DecodeRune (c # p) = (byte c, 1)"
  by simp

lemma mixedContentDisplay_loop_stop:
  "length v \<le> pos \<Longrightarrow> mixedContentDisplay_loop v pos rb = rb"
  by (subst mixedContentDisplay_loop.simps) simp

lemma mixedContentDisplay_loop_printable_step:
  assumes "pos < length v" and "printableASCII (v ! pos)"
  shows "mixedContentDisplay_loop v pos (res, []) =
           mixedContentDisplay_loop v (Suc pos) (res @ [v ! pos], [])"
proof -
  have d: "drop pos v = v ! pos # drop (Suc pos) v"
    using assms(1) by (simp add: Cons_nth_drop_Suc)
  from assms(2) have lo: "0x20 \<le> byte (v ! pos)" and hi: "byte (v ! pos) \<le> 0x7E"
    by (simp_all add: printableASCII_def)
  from hi have dec: "utf8_DecodeRune (drop pos v) = (byte (v ! pos), 1)"
    by (simp add: d)
  from lo hi have nc: "\<not> unicode_IsControl (byte (v ! pos))"
    by (simp add: unicode_IsControl_def)
  from hi have ne: "byte (v ! pos) \<noteq> RuneError"
    by (simp add: RuneError_def)
  from lo hi have enc: "utf8_EncodeRune (byte (v ! pos)) = [v ! pos]"
    by (simp add: utf8_EncodeRune_def char_of_byte)
  show ?thesis
    by (subst mixedContentDisplay_loop.simps)
       (simp add: assms(1) dec nc ne enc flushBinary_def)
qed

lemma mixedContentDisplay_loop_printable:
  "list_all printableASCII (drop pos v) \<Longrightarrow>
   mixedContentDisplay_loop v pos (res, []) = (res @ drop pos v, [])"
proof (induction "length v - pos" arbitrary: pos res)
  case 0
  then show ?case by (simp add: mixedContentDisplay_loop_stop)
next
  case (Suc n)
  then have lt: "pos < length v" by simp
  then have d: "drop pos v = v ! pos # drop (Suc pos) v"
    by (simp add: Cons_nth_drop_Suc)
  with Suc.prems have p: "printableASCII (v ! pos)"
    and rest: "list_all printableASCII (drop (Suc pos) v)" by simp_all
  from Suc.hyps(2) have "n = length v - Suc pos" by simp
  from Suc.hyps(1)[OF this rest]
  have "mixedContentDisplay_loop v (Suc pos) (res @ [v ! pos], []) =
          ((res @ [v ! pos]) @ drop (Suc pos) v, [])" .
  with mixedContentDisplay_loop_printable_step[OF lt p] d show ?case by simp
qed

lemma mixedContentDisplay_printable:
  "list_all printableASCII v \<Longrightarrow> mixedContentDisplay v = v"
  using mixedContentDisplay_loop_printable[of 0 v "[]"]
  by (simp add: mixedContentDisplay_def flushBinary_def)

text \<open>
  Claim C8, as amended. A value made of printable ASCII bytes only (\<open>0x20\<close> to \<open>0x7E\<close>)
  passes through the mixed-content rendering unchanged, so no binary marker is produced;
  and \<open>formatValue\<close> returns it unchanged whenever the value is not valid JSON (or
  \<open>json.Indent\<close> fails). A value that is valid JSON is returned in the indented form
  instead.
\<close>

theorem formatValue_printable_ascii:
  "list_all printableASCII v \<Longrightarrow>
     mixedContentDisplay v = v \<and>
     (\<not> json_Valid v \<or> json_Indent v = None \<longrightarrow> formatValue json_Valid json_Indent v = v)"
  by (auto simp: mixedContentDisplay_printable formatValue_def)

theorem formatValue_printable_ascii_witness:
  "list_all printableASCII ''hello world'' \<and>
   mixedContentDisplay ''hello world'' = ''hello world'' \<and>
   \<not> sampleJSON_Valid ''hello world'' \<and>
   formatValue sampleJSON_Valid sampleJSON_Indent ''hello world'' = ''hello world''"
proof -
  have p: "list_all printableASCII ''hello world''"
    by (simp add: printableASCII_def byte_def)
  have n: "\<not> sampleJSON_Valid ''hello world''"
    by (simp add: sampleJSON_Valid_def)
  from formatValue_printable_ascii[OF p, of sampleJSON_Valid sampleJSON_Indent] p n
  show ?thesis by simp
qed

text \<open>
  The claim as stated fails on printable ASCII that is JSON: \<open>[1]\<close> is rendered on three
  lines.
\<close>

theorem formatValue_printable_json_counterexample:
  "''[1]'' \<noteq> [] \<and> list_all printableASCII ''[1]'' \<and>
   formatValue sampleJSON_Valid sampleJSON_Indent ''[1]''
     = ''['' @ [CHR 0x0A] @ ''  1'' @ [CHR 0x0A] @ '']'' \<and>
   formatValue sampleJSON_Valid sampleJSON_Indent ''[1]'' \<noteq> ''[1]''"
  by (simp add: printableASCII_def byte_def formatValue_def sampleJSON_Valid_def
      sampleJSON_Indent_def)

section \<open>The file name of an export\<close>

lemma byte_eq_iff: "byte c = byte d \<longleftrightarrow> c = d"
  by (simp add: byte_def)

lemma forbiddenChars_byte:
  "c \<in> set forbiddenChars \<longleftrightarrow>
     byte c \<in> {0x2F, 0x5C, 0x3A, 0x2A, 0x3F, 0x22, 0x3C, 0x3E, 0x7C}"
proof -
  have eq: "(c = d) = (byte c = byte d)" for d by (simp add: byte_def)
  show ?thesis
    by (simp only: forbiddenChars_def list.simps insert_iff empty_iff eq) (simp add: byte_def)
qed

lemma char_of_underscore: "char_of (0x5F :: int) = CHR ''_''"
proof -
  have "byte (CHR ''_'') = 0x5F" by (simp add: byte_def)
  with char_of_byte[of "CHR ''_''"] show ?thesis by simp
qed

lemma utf8_EncodeRune_high:
  assumes "0x80 \<le> q"
  shows "\<forall>c\<in>set (utf8_EncodeRune q). 0x80 \<le> byte c"
proof -
  have cont: "0x80 \<le> byte (char_of (0x80 + a mod 0x40))" for a :: int
  proof -
    have "0 \<le> a mod 0x40" and "a mod 0x40 < 0x40" by simp_all
    then show ?thesis by (simp add: byte_char_of)
  qed
  show ?thesis
  proof (cases "q \<le> 0x7FF")
    case True
    have "0xC0 + q div 0x40 < 256" and "0x80 \<le> 0xC0 + q div 0x40"
      using True assms by arith+
    then have "0x80 \<le> byte (char_of (0xC0 + q div 0x40))" by (simp add: byte_char_of)
    with True assms cont show ?thesis by (simp add: utf8_EncodeRune_def)
  next
    case False
    define r where
      "r = (if q < 0 \<or> 0x10FFFF < q \<or> (0xD800 \<le> q \<and> q \<le> 0xDFFF) then RuneError else q)"
    have r: "0x800 \<le> r" "r \<le> 0x10FFFF"
      using False by (auto simp: r_def RuneError_def)
    have e: "utf8_EncodeRune q =
      (if r \<le> 0xFFFF
         then [char_of (0xE0 + r div 0x1000), char_of (0x80 + (r div 0x40) mod 0x40),
               char_of (0x80 + r mod 0x40)]
         else [char_of (0xF0 + r div 0x40000), char_of (0x80 + (r div 0x1000) mod 0x40),
               char_of (0x80 + (r div 0x40) mod 0x40), char_of (0x80 + r mod 0x40)])"
      using False assms by (simp add: utf8_EncodeRune_def r_def Let_def)
    show ?thesis
    proof (cases "r \<le> 0xFFFF")
      case True
      have "0xE0 + r div 0x1000 < 256" and "0x80 \<le> 0xE0 + r div 0x1000"
        using True r by arith+
      then have "0x80 \<le> byte (char_of (0xE0 + r div 0x1000))" by (simp add: byte_char_of)
      with True cont show ?thesis unfolding e by simp
    next
      case False
      have "0xF0 + r div 0x40000 < 256" and "0x80 \<le> 0xF0 + r div 0x40000"
        using False r by arith+
      then have "0x80 \<le> byte (char_of (0xF0 + r div 0x40000))" by (simp add: byte_char_of)
      with False cont show ?thesis unfolding e by simp
    qed
  qed
qed

lemma utf8_EncodeRune_replaceForbidden:
  "\<forall>c\<in>set (utf8_EncodeRune (replaceForbidden r)). 32 \<le> byte c \<and> c \<notin> set forbiddenChars"
proof (cases "replaceForbidden r \<le> 0x7F")
  case True
  have lo: "32 \<le> replaceForbidden r" by (simp add: replaceForbidden_def)
  have nf: "replaceForbidden r \<notin> {0x2F, 0x5C, 0x3A, 0x2A, 0x3F, 0x22, 0x3C, 0x3E, 0x7C}"
    by (simp add: replaceForbidden_def)
  from lo True have "byte (char_of (replaceForbidden r)) = replaceForbidden r"
    by (simp add: byte_char_of)
  with lo nf True show ?thesis
    by (simp add: utf8_EncodeRune_def forbiddenChars_byte)
next
  case False
  then have "\<forall>c\<in>set (utf8_EncodeRune (replaceForbidden r)). 0x80 \<le> byte c"
    by (intro utf8_EncodeRune_high) simp
  then show ?thesis by (fastforce simp: forbiddenChars_byte)
qed

lemma strings_Map_Nil: "strings_Map m [] = []"
  by (subst strings_Map.simps) simp

lemma replaceForbidden_lower: "32 \<le> replaceForbidden r"
  by (simp add: replaceForbidden_def)

lemma strings_Map_step:
  "s \<noteq> [] \<Longrightarrow> strings_Map replaceForbidden s =
     utf8_EncodeRune (replaceForbidden (fst (utf8_DecodeRune s)))
       @ strings_Map replaceForbidden (drop (snd (utf8_DecodeRune s)) s)"
  using replaceForbidden_lower[of "fst (utf8_DecodeRune s)"]
  by (subst strings_Map.simps) simp

lemma strings_Map_replaceForbidden_bytes:
  "\<forall>c\<in>set (strings_Map replaceForbidden s). 32 \<le> byte c \<and> c \<notin> set forbiddenChars"
proof (induction "length s" arbitrary: s rule: less_induct)
  case less
  show ?case
  proof (cases "s = []")
    case True
    then show ?thesis by (simp add: strings_Map_Nil)
  next
    case False
    with utf8_DecodeRune_size[of s] have "length (drop (snd (utf8_DecodeRune s)) s) < length s"
      by simp
    from less[OF this] utf8_EncodeRune_replaceForbidden[of "fst (utf8_DecodeRune s)"] False
    show ?thesis by (auto simp: strings_Map_step)
  qed
qed

lemma strings_Map_replaceForbidden_ascii:
  "\<forall>c\<in>set s. byte c < 0x80 \<Longrightarrow>
   strings_Map replaceForbidden s =
     map (\<lambda>c. if byte c < 32 \<or> c \<in> set forbiddenChars then CHR ''_'' else c) s"
proof (induction s)
  case Nil
  then show ?case by (simp add: strings_Map_Nil)
next
  case (Cons c s)
  then have c: "byte c < 0x80" by simp
  have dec: "utf8_DecodeRune (c # s) = (byte c, 1)" using c by simp
  have "replaceForbidden (byte c) \<le> 0x7F"
    using c by (simp add: replaceForbidden_def)
  with replaceForbidden_lower[of "byte c"]
  have enc: "utf8_EncodeRune (replaceForbidden (byte c)) = [char_of (replaceForbidden (byte c))]"
    by (simp add: utf8_EncodeRune_def)
  have "char_of (replaceForbidden (byte c)) =
          (if byte c < 32 \<or> c \<in> set forbiddenChars then CHR ''_'' else c)"
    by (auto simp: replaceForbidden_def forbiddenChars_byte char_of_byte char_of_underscore)
  with Cons dec enc show ?case by (simp add: strings_Map_step)
qed

subsection \<open>Encoding and decoding of UTF-8\<close>

lemma utf8_DecodeRune_two_bytes:
  assumes "byte c0 = x0" "0xC2 \<le> x0" "x0 \<le> 0xDF" "byte c1 = x1" "0x80 \<le> x1" "x1 \<le> 0xBF"
  shows "utf8_DecodeRune (c0 # c1 # rest) = ((x0 mod 0x20) * 0x40 + x1 mod 0x40, 2)"
  using assms by (simp add: Let_def)

lemma utf8_DecodeRune_three_bytes:
  assumes "byte c0 = x0" "0xE0 \<le> x0" "x0 \<le> 0xEF" "byte c1 = x1" "byte c2 = x2"
          "0x80 \<le> x1" "x1 \<le> 0xBF" "0x80 \<le> x2" "x2 \<le> 0xBF"
          "x0 = 0xE0 \<longrightarrow> 0xA0 \<le> x1" "x0 = 0xED \<longrightarrow> x1 \<le> 0x9F"
  shows "utf8_DecodeRune (c0 # c1 # c2 # rest)
           = ((x0 mod 0x10) * 0x1000 + (x1 mod 0x40) * 0x40 + x2 mod 0x40, 3)"
proof -
  consider "x0 = 0xE0" | "x0 = 0xED" | "x0 \<noteq> 0xE0" "x0 \<noteq> 0xED" by blast
  then show ?thesis
  proof cases
    case 1
    with assms show ?thesis by (simp add: Let_def)
  next
    case 2
    with assms show ?thesis by (simp add: Let_def)
  next
    case 3
    with assms show ?thesis by (simp add: Let_def)
  qed
qed

lemma utf8_DecodeRune_four_bytes:
  assumes "byte c0 = x0" "0xF0 \<le> x0" "x0 \<le> 0xF4" "byte c1 = x1" "byte c2 = x2" "byte c3 = x3"
          "0x80 \<le> x1" "x1 \<le> 0xBF" "0x80 \<le> x2" "x2 \<le> 0xBF" "0x80 \<le> x3" "x3 \<le> 0xBF"
          "x0 = 0xF0 \<longrightarrow> 0x90 \<le> x1" "x0 = 0xF4 \<longrightarrow> x1 \<le> 0x8F"
  shows "utf8_DecodeRune (c0 # c1 # c2 # c3 # rest)
           = ((x0 mod 8) * 0x40000 + (x1 mod 0x40) * 0x1000 + (x2 mod 0x40) * 0x40
                + x3 mod 0x40, 4)"
proof -
  consider "x0 = 0xF0" | "x0 = 0xF4" | "x0 \<noteq> 0xF0" "x0 \<noteq> 0xF4" by blast
  then show ?thesis
  proof cases
    case 1
    with assms show ?thesis by (simp add: Let_def)
  next
    case 2
    with assms show ?thesis by (simp add: Let_def)
  next
    case 3
    with assms show ?thesis by (simp add: Let_def)
  qed
qed

lemma int_digits_64:
  fixes q :: int
  shows "q = 0x40 * (q div 0x40) + q mod 0x40 \<and> 0 \<le> q mod 0x40 \<and> q mod 0x40 \<le> 63"
proof -
  have "0 \<le> q mod 0x40" by simp
  moreover have "q mod 0x40 < 0x40" by simp
  ultimately show ?thesis by simp
qed

lemma cont_byte:
  fixes b :: int
  assumes "0 \<le> b" "b \<le> 63"
  shows "byte (char_of (0x80 + b)) = 0x80 + b" "(0x80 + b) mod 0x40 = b"
        "0x80 \<le> 0x80 + b" "0x80 + b \<le> 0xBF"
proof -
  show "byte (char_of (0x80 + b)) = 0x80 + b" using assms by (simp add: byte_char_of)
  show "(0x80 + b) mod 0x40 = b" using assms by presburger
  show "0x80 \<le> 0x80 + b" "0x80 + b \<le> 0xBF" using assms by simp_all
qed

lemma utf8_DecodeRune_EncodeRune:
  assumes "utf8_ValidRune r"
  shows "utf8_DecodeRune (utf8_EncodeRune r @ rest) = (r, length (utf8_EncodeRune r))"
proof -
  define q1 where "q1 = r div 0x40"
  define d1 where "d1 = r mod 0x40"
  define q2 where "q2 = q1 div 0x40"
  define d2 where "d2 = q1 mod 0x40"
  define q3 where "q3 = q2 div 0x40"
  define d3 where "d3 = q2 mod 0x40"
  have r: "r = 0x40 * q1 + d1" "0 \<le> d1" "d1 \<le> 63"
    unfolding q1_def d1_def using int_digits_64[of r] by simp_all
  have q1: "q1 = 0x40 * q2 + d2" "0 \<le> d2" "d2 \<le> 63"
    unfolding q2_def d2_def using int_digits_64[of q1] by simp_all
  have q2: "q2 = 0x40 * q3 + d3" "0 \<le> d3" "d3 \<le> 63"
    unfolding q3_def d3_def using int_digits_64[of q2] by simp_all
  have "r div (0x40 * 0x40) = r div 0x40 div 0x40" by (rule zdiv_zmult2_eq) simp
  then have e2: "r div 0x1000 = q2" by (simp add: q1_def q2_def)
  have "r div (0x1000 * 0x40) = r div 0x1000 div 0x40" by (rule zdiv_zmult2_eq) simp
  then have e3: "r div 0x40000 = q3" by (simp add: e2 q3_def)
  have dd: "r mod 0x40 = d1" "(r div 0x40) mod 0x40 = d2" "(r div 0x1000) mod 0x40 = d3"
           "r div 0x40 = q1" "q1 mod 0x40 = d2" "q2 mod 0x40 = d3"
    by (simp_all only: e2 d1_def d2_def d3_def q1_def)
  consider (one) "0 \<le> r" "r \<le> 0x7F" | (two) "0x80 \<le> r" "r \<le> 0x7FF"
    | (three) "0x800 \<le> r" "r \<le> 0xFFFF" "r < 0xD800 \<or> 0xDFFF < r"
    | (four) "0x10000 \<le> r" "r \<le> 0x10FFFF"
    using assms unfolding utf8_ValidRune_def by linarith
  then show ?thesis
  proof cases
    case one
    then have enc: "utf8_EncodeRune r = [char_of r]" by (simp add: utf8_EncodeRune_def)
    from one have "byte (char_of r) = r" by (simp add: byte_char_of)
    with one show ?thesis unfolding enc by simp
  next
    case two
    then have c: "0 \<le> r" "\<not> r \<le> 0x7F" "r \<le> 0x7FF" by arith+
    have enc: "utf8_EncodeRune r = [char_of (0xC0 + q1), char_of (0x80 + d1)]"
      unfolding utf8_EncodeRune_def by (simp only: c if_True if_False dd simp_thms)
    from two r have b: "2 \<le> q1" "q1 \<le> 31" by arith+
    then have x0: "byte (char_of (0xC0 + q1)) = 0xC0 + q1" "0xC2 \<le> 0xC0 + q1" "0xC0 + q1 \<le> 0xDF"
      by (simp_all add: byte_char_of)
    have m0: "(0xC0 + q1) mod 0x20 = q1" using b by presburger
    from utf8_DecodeRune_two_bytes[OF x0 cont_byte(1,3,4)[OF r(2,3)], of rest]
    show ?thesis unfolding enc using r(1) by (simp add: m0 cont_byte(2)[OF r(2,3)])
  next
    case three
    then have c: "0 \<le> r" "\<not> r \<le> 0x7F" "\<not> r \<le> 0x7FF" "\<not> r < 0" "\<not> 0x10FFFF < r"
      "(0xD800 \<le> r \<and> r \<le> 0xDFFF) = False" "r \<le> 0xFFFF" by arith+
    have enc: "utf8_EncodeRune r =
        [char_of (0xE0 + q2), char_of (0x80 + d2), char_of (0x80 + d1)]"
      unfolding utf8_EncodeRune_def Let_def by (simp only: c if_True if_False dd e2 simp_thms)
    from three r have b1: "32 \<le> q1" "q1 \<le> 1023" by arith+
    with q1 have b: "0 \<le> q2" "q2 \<le> 15" by arith+
    then have x0: "byte (char_of (0xE0 + q2)) = 0xE0 + q2" "0xE0 \<le> 0xE0 + q2" "0xE0 + q2 \<le> 0xEF"
      by (simp_all add: byte_char_of)
    have m0: "(0xE0 + q2) mod 0x10 = q2" using b by presburger
    have lo: "0xE0 + q2 = 0xE0 \<longrightarrow> 0xA0 \<le> 0x80 + d2" using b1 q1 by arith
    have hi: "0xE0 + q2 = 0xED \<longrightarrow> 0x80 + d2 \<le> 0x9F"
    proof
      assume "0xE0 + q2 = 0xED"
      then have "q2 = 13" by simp
      with q1 r have "r \<le> 0xDFFF" by arith
      with three have "r < 0xD800" by arith
      with r \<open>q2 = 13\<close> q1 show "0x80 + d2 \<le> 0x9F" by arith
    qed
    from utf8_DecodeRune_three_bytes[OF x0 cont_byte(1)[OF q1(2,3)] cont_byte(1)[OF r(2,3)]
        cont_byte(3,4)[OF q1(2,3)] cont_byte(3,4)[OF r(2,3)] lo hi, of rest]
    show ?thesis unfolding enc using r(1) q1(1)
      by (simp add: m0 cont_byte(2)[OF r(2,3)] cont_byte(2)[OF q1(2,3)])
  next
    case four
    then have c: "0 \<le> r" "\<not> r \<le> 0x7F" "\<not> r \<le> 0x7FF" "\<not> r < 0" "\<not> 0x10FFFF < r"
      "\<not> r \<le> 0xDFFF" "\<not> r \<le> 0xFFFF" by arith+
    have enc: "utf8_EncodeRune r =
        [char_of (0xF0 + q3), char_of (0x80 + d3), char_of (0x80 + d2), char_of (0x80 + d1)]"
      unfolding utf8_EncodeRune_def Let_def by (simp only: c if_True if_False dd e3 simp_thms)
    from four r have b1: "1024 \<le> q1" "q1 \<le> 17407" by arith+
    with q1 have b2: "16 \<le> q2" "q2 \<le> 271" by arith+
    with q2 have b: "0 \<le> q3" "q3 \<le> 4" by arith+
    then have x0: "byte (char_of (0xF0 + q3)) = 0xF0 + q3" "0xF0 \<le> 0xF0 + q3" "0xF0 + q3 \<le> 0xF4"
      by (simp_all add: byte_char_of)
    have m0: "(0xF0 + q3) mod 8 = q3" using b by presburger
    have lo: "0xF0 + q3 = 0xF0 \<longrightarrow> 0x90 \<le> 0x80 + d3" using b2 q2 by arith
    have hi: "0xF0 + q3 = 0xF4 \<longrightarrow> 0x80 + d3 \<le> 0x8F" using b2 q2 by arith
    from utf8_DecodeRune_four_bytes[OF x0 cont_byte(1)[OF q2(2,3)] cont_byte(1)[OF q1(2,3)]
        cont_byte(1)[OF r(2,3)] cont_byte(3,4)[OF q2(2,3)] cont_byte(3,4)[OF q1(2,3)]
        cont_byte(3,4)[OF r(2,3)] lo hi, of rest]
    show ?thesis unfolding enc using r(1) q1(1) q2(1)
      by (simp add: m0 cont_byte(2)[OF r(2,3)] cont_byte(2)[OF q1(2,3)] cont_byte(2)[OF q2(2,3)])
  qed
qed

subsection \<open>The file name of a key given by its characters\<close>

lemma utf8_EncodeRune_not_Nil: "utf8_EncodeRune r \<noteq> []"
  by (simp add: utf8_EncodeRune_def Let_def)

lemma utf8_EncodeRune_sanitized: "utf8_EncodeRune (replaceForbidden r) = sanitizedRune r"
proof (cases "r < 32 \<or> r \<in> {0x2F, 0x5C, 0x3A, 0x2A, 0x3F, 0x22, 0x3C, 0x3E, 0x7C}")
  case True
  then have "replaceForbidden r = 0x5F" by (auto simp: replaceForbidden_def)
  moreover have "utf8_EncodeRune 0x5F = ''_''"
    using char_of_underscore by (simp add: utf8_EncodeRune_def)
  ultimately show ?thesis using True by (simp add: sanitizedRune_def)
next
  case False
  then have "replaceForbidden r = r" by (auto simp: replaceForbidden_def)
  with False show ?thesis by (simp add: sanitizedRune_def)
qed

lemma strings_Map_encoded:
  "list_all utf8_ValidRune rs \<Longrightarrow>
     strings_Map replaceForbidden (concat (map utf8_EncodeRune rs) @ tail) =
       concat (map sanitizedRune rs) @ strings_Map replaceForbidden tail"
proof (induction rs)
  case Nil
  then show ?case by simp
next
  case (Cons r rs)
  then have v: "utf8_ValidRune r" and vs: "list_all utf8_ValidRune rs" by simp_all
  let ?rest = "concat (map utf8_EncodeRune rs) @ tail"
  have ne: "utf8_EncodeRune r @ ?rest \<noteq> []" by (simp add: utf8_EncodeRune_not_Nil)
  note dec = utf8_DecodeRune_EncodeRune[OF v, of ?rest]
  have "strings_Map replaceForbidden (utf8_EncodeRune r @ ?rest) =
          sanitizedRune r @ strings_Map replaceForbidden ?rest"
    by (subst strings_Map_step[OF ne]) (simp add: dec utf8_EncodeRune_sanitized)
  with Cons.IH[OF vs] show ?case by simp
qed

lemma sanitizedRune_RuneError: "sanitizedRune RuneError = [CHR 0xEF, CHR 0xBF, CHR 0xBD]"
  by code_simp

lemma strings_Map_invalid_byte:
  assumes "list_all utf8_ValidRune rs" and "utf8_DecodeRune (c # tail) = (RuneError, 1)"
  shows "strings_Map replaceForbidden (concat (map utf8_EncodeRune rs) @ c # tail) =
           concat (map sanitizedRune rs) @ [CHR 0xEF, CHR 0xBF, CHR 0xBD]
             @ strings_Map replaceForbidden tail"
proof -
  have "strings_Map replaceForbidden (c # tail) =
          [CHR 0xEF, CHR 0xBF, CHR 0xBD] @ strings_Map replaceForbidden tail"
    using strings_Map_step[of "c # tail", unfolded assms(2)]
    by (simp add: utf8_EncodeRune_sanitized sanitizedRune_RuneError)
  with strings_Map_encoded[OF assms(1), of "c # tail"] show ?thesis by simp
qed

subsection \<open>The example sessions of the export\<close>

lemma exportSession_keys:
  "displayedKeys (exportSession i) = [''a/b'', [CHR 0x61, CHR 0x7F], ''c'']"
  unfolding exportSession_def by code_simp

lemma exportSession_db: "db (exportSession i) = exportStore"
  unfolding exportSession_def by code_simp

lemma binaryKeySession_keys:
  "displayedKeys binaryKeySession = [[CHR 0xC2, CHR 0x85, CHR 0xFF]]"
  unfolding binaryKeySession_def by code_simp

lemma binaryKeySession_db: "db binaryKeySession = binaryKeyStore"
  unfolding binaryKeySession_def by code_simp

lemma binaryKeySession_currentItem: "currentItem binaryKeySession = 0"
  unfolding binaryKeySession_def by code_simp

section \<open>Single-entry export\<close>

text \<open>
  Claim C10. When the selection index is outside the displayed keys, or the point lookup
  of the selected key fails, \<open>dumpCurrentKey\<close> only sets an error status: the file system
  it returns is the one it was given (no directory created, no file written).
\<close>

theorem dumpCurrentKey_rejects_without_writing:
  "(currentItem s < 0 \<or> int (length (displayedKeys s)) \<le> currentItem s \<longrightarrow>
      dumpCurrentKey json_Valid json_Indent s fs = (setStatus ''[red]Invalid selection'' s, fs)) \<and>
   (0 \<le> currentItem s \<and> currentItem s < int (length (displayedKeys s)) \<and>
    db_Get (db s) (displayedKeys s ! nat (currentItem s)) = Inl e \<longrightarrow>
      dumpCurrentKey json_Valid json_Indent s fs = (setStatus (''[red]Error: '' @ Error e) s, fs))"
  by (simp add: dumpCurrentKey_def Let_def)

theorem dumpCurrentKey_rejects_without_writing_witness:
  "dumpCurrentKey sampleJSON_Valid sampleJSON_Indent (exportSession 3) emptyFS
     = (setStatus ''[red]Invalid selection'' (exportSession 3), emptyFS) \<and>
   dumpCurrentKey sampleJSON_Valid sampleJSON_Indent
       ((exportSession 1)\<lparr>db := exportStore\<lparr>damaged := Some 1\<rparr>\<rparr>) emptyFS
     = (setStatus ''[red]Error: leveldb: corruption''
          ((exportSession 1)\<lparr>db := exportStore\<lparr>damaged := Some 1\<rparr>\<rparr>), emptyFS)"
proof -
  have sel3: "int (length (displayedKeys (exportSession 3))) \<le> currentItem (exportSession 3)"
    by (simp add: exportSession_keys) (simp add: exportSession_def)
  have sel1: "currentItem ((exportSession 1)\<lparr>db := exportStore\<lparr>damaged := Some 1\<rparr>\<rparr>) = 1"
    by (simp add: exportSession_def)
  have keys1: "displayedKeys ((exportSession 1)\<lparr>db := exportStore\<lparr>damaged := Some 1\<rparr>\<rparr>)
                 = [''a/b'', [CHR 0x61, CHR 0x7F], ''c'']"
    by (simp add: exportSession_keys)
  have get: "db_Get (exportStore\<lparr>damaged := Some 1\<rparr>) [CHR 0x61, CHR 0x7F] = Inl ErrCorrupted"
    by code_simp
  from dumpCurrentKey_rejects_without_writing
         [of "exportSession 3" sampleJSON_Valid sampleJSON_Indent emptyFS] sel3
  have a: "dumpCurrentKey sampleJSON_Valid sampleJSON_Indent (exportSession 3) emptyFS
     = (setStatus ''[red]Invalid selection'' (exportSession 3), emptyFS)"
    by simp
  from dumpCurrentKey_rejects_without_writing
         [of "(exportSession 1)\<lparr>db := exportStore\<lparr>damaged := Some 1\<rparr>\<rparr>"
             sampleJSON_Valid sampleJSON_Indent emptyFS ErrCorrupted] sel1 keys1 get
  have b: "dumpCurrentKey sampleJSON_Valid sampleJSON_Indent
       ((exportSession 1)\<lparr>db := exportStore\<lparr>damaged := Some 1\<rparr>\<rparr>) emptyFS
     = (setStatus ''[red]Error: leveldb: corruption''
          ((exportSession 1)\<lparr>db := exportStore\<lparr>damaged := Some 1\<rparr>\<rparr>), emptyFS)"
    by simp
  from a b show ?thesis by simp
qed

text \<open>
  Claim C9, as amended. When the selection is valid, the lookup succeeds and the file
  system accepts the directory and the file, the export creates \<open>leveldb_dump\<close> and writes
  the file \<open>leveldb_dump/<name>.txt\<close>. For a key that is the UTF-8 encoding of the
  characters \<open>rs\<close>, \<open>name\<close> is the key with every character below \<open>U+0020\<close> and each of
  the nine characters of \<open>forbiddenChars\<close> (slash, backslash, colon, asterisk, question
  mark, double quote, less-than, greater-than, vertical bar) replaced by an underscore and
  every other character kept as it is encoded in the key: DEL, the C1 range and all
  characters beyond are kept. Where a valid run of the key is followed by a byte that
  starts no valid encoding, that byte is written as \<open>U+FFFD\<close> (the bytes \<open>EF BF BD\<close>) and the
  name goes on with the bytes after it. No byte below 32 and none of the nine characters
  is left in \<open>name\<close>, and on an ASCII key the replacement is byte by byte.
\<close>

theorem dumpCurrentKey_file_name:
  assumes "0 \<le> currentItem s" and "currentItem s < int (length (displayedKeys s))"
    and "key = displayedKeys s ! nat (currentItem s)"
    and "db_Get (db s) key = Inr v"
    and "mkdirError fs = None" and "writeError fs = None"
  shows "snd (dumpCurrentKey json_Valid json_Indent s fs) =
           fs\<lparr>dirs := insert ''leveldb_dump'' (dirs fs),
              files := (files fs)
                (''leveldb_dump/'' @ strings_Map replaceForbidden key @ ''.txt'' \<mapsto>
                   ''Key: '' @ key @ [CHR 0x0A, CHR 0x0A] @ ''Value: ''
                     @ formatValue json_Valid json_Indent v)\<rparr> \<and>
         (list_all utf8_ValidRune rs \<and> key = concat (map utf8_EncodeRune rs) \<longrightarrow>
            strings_Map replaceForbidden key = concat (map sanitizedRune rs)) \<and>
         (list_all utf8_ValidRune rs \<and> utf8_DecodeRune (c # tail) = (RuneError, 1) \<and>
          key = concat (map utf8_EncodeRune rs) @ c # tail \<longrightarrow>
            strings_Map replaceForbidden key =
              concat (map sanitizedRune rs) @ [CHR 0xEF, CHR 0xBF, CHR 0xBD]
                @ strings_Map replaceForbidden tail) \<and>
         (\<forall>c\<in>set (strings_Map replaceForbidden key). 32 \<le> byte c \<and> c \<notin> set forbiddenChars) \<and>
         ((\<forall>c\<in>set key. byte c < 0x80) \<longrightarrow>
            strings_Map replaceForbidden key =
              map (\<lambda>c. if byte c < 32 \<or> c \<in> set forbiddenChars then CHR ''_'' else c) key)"
proof -
  from assms have "snd (dumpCurrentKey json_Valid json_Indent s fs) =
           fs\<lparr>dirs := insert ''leveldb_dump'' (dirs fs),
              files := (files fs)
                (''leveldb_dump/'' @ strings_Map replaceForbidden key @ ''.txt'' \<mapsto>
                   ''Key: '' @ key @ [CHR 0x0A, CHR 0x0A] @ ''Value: ''
                     @ formatValue json_Valid json_Indent v)\<rparr>"
    by (simp add: dumpCurrentKey_def Let_def os_MkdirAll_def os_WriteFile_def filepath_Join_def)
  moreover have "strings_Map replaceForbidden key = concat (map sanitizedRune rs)"
    if "list_all utf8_ValidRune rs" "key = concat (map utf8_EncodeRune rs)"
    using strings_Map_encoded[OF that(1), of "[]"] that(2) by (simp add: strings_Map_Nil)
  moreover have "strings_Map replaceForbidden key =
              concat (map sanitizedRune rs) @ [CHR 0xEF, CHR 0xBF, CHR 0xBD]
                @ strings_Map replaceForbidden tail"
    if "list_all utf8_ValidRune rs" "utf8_DecodeRune (c # tail) = (RuneError, 1)"
       "key = concat (map utf8_EncodeRune rs) @ c # tail"
    unfolding that(3) by (rule strings_Map_invalid_byte[OF that(1,2)])
  ultimately show ?thesis
    using strings_Map_replaceForbidden_bytes[of key] strings_Map_replaceForbidden_ascii[of key]
    by blast
qed

theorem dumpCurrentKey_file_name_witness:
  "strings_Map replaceForbidden ''a/b'' = ''a_b'' \<and>
   snd (dumpCurrentKey sampleJSON_Valid sampleJSON_Indent (exportSession 0) emptyFS) =
     emptyFS\<lparr>dirs := {''leveldb_dump''},
       files := [''leveldb_dump/a_b.txt'' \<mapsto> ''Key: a/b'' @ [CHR 0x0A, CHR 0x0A] @ ''Value: '']\<rparr> \<and>
   unicode_IsControl 0x85 \<and>
   utf8_EncodeRune 0x85 = [CHR 0xC2, CHR 0x85] \<and>
   utf8_DecodeRune [CHR 0xFF] = (RuneError, 1) \<and>
   strings_Map replaceForbidden [CHR 0xC2, CHR 0x85, CHR 0xFF]
     = [CHR 0xC2, CHR 0x85, CHR 0xEF, CHR 0xBF, CHR 0xBD] \<and>
   snd (dumpCurrentKey sampleJSON_Valid sampleJSON_Indent binaryKeySession emptyFS) =
     emptyFS\<lparr>dirs := {''leveldb_dump''},
       files := [''leveldb_dump/'' @ [CHR 0xC2, CHR 0x85, CHR 0xEF, CHR 0xBF, CHR 0xBD] @ ''.txt''
                   \<mapsto> ''Key: '' @ [CHR 0xC2, CHR 0x85, CHR 0xFF, CHR 0x0A, CHR 0x0A]
                          @ ''Value: hello'']\<rparr>"
proof -
  have f0: "formatValue sampleJSON_Valid sampleJSON_Indent [] = []" by code_simp
  have c: "currentItem (exportSession 0) = 0" by (simp add: exportSession_def)
  have h1: "0 \<le> currentItem (exportSession 0)" by (simp add: c)
  have h2: "currentItem (exportSession 0) < int (length (displayedKeys (exportSession 0)))"
    by (simp add: c exportSession_keys)
  have h3: "''a/b'' = displayedKeys (exportSession 0) ! nat (currentItem (exportSession 0))"
    by (simp add: c exportSession_keys)
  have h4: "db_Get (db (exportSession 0)) ''a/b'' = Inr []"
    unfolding exportSession_db by code_simp
  have h5: "mkdirError emptyFS = None" and h6: "writeError emptyFS = None"
    by (simp_all add: emptyFS_def)
  have v0: "list_all utf8_ValidRune [0x61, 0x2F, 0x62]" by code_simp
  have k0: "''a/b'' = concat (map utf8_EncodeRune [0x61, 0x2F, 0x62])" by code_simp
  have n0: "concat (map sanitizedRune [0x61, 0x2F, 0x62]) = ''a_b''" by code_simp
  note t0 = dumpCurrentKey_file_name[OF h1 h2 h3 h4 h5 h6,
      of sampleJSON_Valid sampleJSON_Indent "[0x61, 0x2F, 0x62]"]
  from t0[THEN conjunct2, THEN conjunct1] v0 k0
  have m0: "strings_Map replaceForbidden ''a/b'' = ''a_b''" unfolding n0 by blast
  have w0: "snd (dumpCurrentKey sampleJSON_Valid sampleJSON_Indent (exportSession 0) emptyFS) =
     emptyFS\<lparr>dirs := {''leveldb_dump''},
       files := [''leveldb_dump/a_b.txt'' \<mapsto> ''Key: a/b'' @ [CHR 0x0A, CHR 0x0A] @ ''Value: '']\<rparr>"
    using t0[THEN conjunct1] unfolding m0 f0 by (simp add: emptyFS_def)
  let ?k = "[CHR 0xC2, CHR 0x85, CHR 0xFF]"
  have f1: "formatValue sampleJSON_Valid sampleJSON_Indent ''hello'' = ''hello''" by code_simp
  have g1: "0 \<le> currentItem binaryKeySession"
    by (simp add: binaryKeySession_currentItem)
  have g2: "currentItem binaryKeySession < int (length (displayedKeys binaryKeySession))"
    by (simp add: binaryKeySession_currentItem binaryKeySession_keys)
  have g3: "?k = displayedKeys binaryKeySession ! nat (currentItem binaryKeySession)"
    by (simp add: binaryKeySession_currentItem binaryKeySession_keys)
  have g4: "db_Get (db binaryKeySession) ?k = Inr ''hello''"
    unfolding binaryKeySession_db by code_simp
  have ctl: "unicode_IsControl 0x85" by code_simp
  have enc: "utf8_EncodeRune 0x85 = [CHR 0xC2, CHR 0x85]" by code_simp
  have v1: "list_all utf8_ValidRune [0x85]" by code_simp
  have d1: "utf8_DecodeRune (CHR 0xFF # []) = (RuneError, 1)" by code_simp
  have k1: "?k = concat (map utf8_EncodeRune [0x85]) @ CHR 0xFF # []" by code_simp
  have n1: "concat (map sanitizedRune [0x85]) @ [CHR 0xEF, CHR 0xBF, CHR 0xBD]
              @ strings_Map replaceForbidden [] = [CHR 0xC2, CHR 0x85, CHR 0xEF, CHR 0xBF, CHR 0xBD]"
    by code_simp
  note t1 = dumpCurrentKey_file_name[OF g1 g2 g3 g4 h5 h6,
      of sampleJSON_Valid sampleJSON_Indent "[0x85]" "CHR 0xFF" "[]"]
  from t1[THEN conjunct2, THEN conjunct2, THEN conjunct1] v1 d1 k1
  have m1: "strings_Map replaceForbidden ?k = [CHR 0xC2, CHR 0x85, CHR 0xEF, CHR 0xBF, CHR 0xBD]"
    unfolding n1 by blast
  have w1: "snd (dumpCurrentKey sampleJSON_Valid sampleJSON_Indent binaryKeySession emptyFS) =
     emptyFS\<lparr>dirs := {''leveldb_dump''},
       files := [''leveldb_dump/'' @ [CHR 0xC2, CHR 0x85, CHR 0xEF, CHR 0xBF, CHR 0xBD] @ ''.txt''
                   \<mapsto> ''Key: '' @ [CHR 0xC2, CHR 0x85, CHR 0xFF, CHR 0x0A, CHR 0x0A]
                          @ ''Value: hello'']\<rparr>"
    using t1[THEN conjunct1] unfolding m1 f1 by (simp add: emptyFS_def)
  from m0 w0 ctl enc d1 m1 w1 show ?thesis by simp
qed

text \<open>
  The claim as stated (every control character is replaced) fails on DEL, which
  \<open>unicode.IsControl\<close> counts as a control character: the key \<open>a\<close> DEL is exported to a
  file whose name still holds the DEL byte.
\<close>

theorem dumpCurrentKey_keeps_DEL_counterexample:
  "unicode_IsControl 0x7F \<and>
   utf8_DecodeRune [CHR 0x7F] = (0x7F, 1) \<and>
   strings_Map replaceForbidden [CHR 0x61, CHR 0x7F] = [CHR 0x61, CHR 0x7F] \<and>
   files (snd (dumpCurrentKey sampleJSON_Valid sampleJSON_Indent (exportSession 1) emptyFS))
     (''leveldb_dump/a'' @ [CHR 0x7F] @ ''.txt'')
     = Some (''Key: a'' @ [CHR 0x7F, CHR 0x0A, CHR 0x0A] @ ''Value: hello'')"
proof -
  have "unicode_IsControl 0x7F" by code_simp
  moreover have "utf8_DecodeRune [CHR 0x7F] = (0x7F, 1)" by code_simp
  moreover have "strings_Map replaceForbidden [CHR 0x61, CHR 0x7F] = [CHR 0x61, CHR 0x7F]"
    by code_simp
  moreover have "files (snd (dumpCurrentKey sampleJSON_Valid sampleJSON_Indent (exportSession 1) emptyFS))
     (''leveldb_dump/a'' @ [CHR 0x7F] @ ''.txt'')
     = Some (''Key: a'' @ [CHR 0x7F, CHR 0x0A, CHR 0x0A] @ ''Value: hello'')"
    unfolding exportSession_def by code_simp
  ultimately show ?thesis by simp
qed

section \<open>Empty values\<close>

text \<open>
  Claim C7. The value view shows the marker \<open>(empty)\<close> for an empty value (line 355), but
  \<open>formatValue\<close> itself renders the empty value as the empty string, and the export, which
  calls \<open>formatValue\<close> without the check, writes nothing after \<open>Value: \<close>.
\<close>

theorem empty_value_marker_missing_in_export:
  "valueView (showKeyValue sampleJSON_Valid sampleJSON_Indent ''a/b'' (exportSession 0))
     = ''[white]Key[::-]: a/b'' @ [CHR 0x0A, CHR 0x0A] @ ''[white]Value[::-]: (empty)'' \<and>
   formatValue sampleJSON_Valid sampleJSON_Indent [] = [] \<and>
   files (snd (dumpCurrentKey sampleJSON_Valid sampleJSON_Indent (exportSession 0) emptyFS))
     ''leveldb_dump/a_b.txt'' = Some (''Key: a/b'' @ [CHR 0x0A, CHR 0x0A] @ ''Value: '')"
proof -
  have "valueView (showKeyValue sampleJSON_Valid sampleJSON_Indent ''a/b'' (exportSession 0))
     = ''[white]Key[::-]: a/b'' @ [CHR 0x0A, CHR 0x0A] @ ''[white]Value[::-]: (empty)''"
    unfolding exportSession_def by code_simp
  moreover have "formatValue sampleJSON_Valid sampleJSON_Indent [] = []" by code_simp
  moreover have "files (snd (dumpCurrentKey sampleJSON_Valid sampleJSON_Indent (exportSession 0) emptyFS))
     ''leveldb_dump/a_b.txt'' = Some (''Key: a/b'' @ [CHR 0x0A, CHR 0x0A] @ ''Value: '')"
    unfolding exportSession_def by code_simp
  ultimately show ?thesis by simp
qed

section \<open>The pager as a scan of the store\<close>

subsection \<open>scanKeys\<close>

lemma scanKeys_Nil [simp]: "scanKeys P r [] = ([], [])"
  by (cases r) simp_all

lemma scanKeys_fst: "fst (scanKeys P r xs) = take r (filter P xs)"
proof (induction xs arbitrary: r)
  case Nil
  then show ?case by simp
next
  case (Cons x xs)
  then show ?case by (cases r) simp_all
qed

lemma scanKeys_split:
  "\<exists>ys. xs = ys @ snd (scanKeys P r xs) \<and> fst (scanKeys P r xs) = filter P ys"
proof (induction xs arbitrary: r)
  case Nil
  then show ?case by simp
next
  case (Cons x xs)
  show ?case
  proof (cases r)
    case 0
    then show ?thesis by simp
  next
    case (Suc r')
    show ?thesis
    proof (cases "P x")
      case True
      from Cons[of r'] obtain ys where "xs = ys @ snd (scanKeys P r' xs)"
        and "fst (scanKeys P r' xs) = filter P ys" by blast
      then have "x # xs = (x # ys) @ snd (scanKeys P r (x # xs)) \<and>
                 fst (scanKeys P r (x # xs)) = filter P (x # ys)"
        using True Suc by simp
      then show ?thesis by blast
    next
      case False
      from Cons[of r] obtain ys where "xs = ys @ snd (scanKeys P r xs)"
        and "fst (scanKeys P r xs) = filter P ys" by blast
      then have "x # xs = (x # ys) @ snd (scanKeys P r (x # xs)) \<and>
                 fst (scanKeys P r (x # xs)) = filter P (x # ys)"
        using False Suc by simp
      then show ?thesis by blast
    qed
  qed
qed

lemma scanKeys_rest_full:
  "snd (scanKeys P r xs) \<noteq> [] \<Longrightarrow> length (fst (scanKeys P r xs)) = r"
proof (induction xs arbitrary: r)
  case Nil
  then show ?case by simp
next
  case (Cons x xs)
  then show ?case by (cases r) (auto split: if_splits)
qed

lemma scanKeys_rest_after_last:
  "0 < r \<Longrightarrow> snd (scanKeys P r xs) \<noteq> [] \<Longrightarrow>
   fst (scanKeys P r xs) \<noteq> [] \<and>
   (\<exists>ys. xs = ys @ last (fst (scanKeys P r xs)) # snd (scanKeys P r xs))"
proof (induction xs arbitrary: r)
  case Nil
  then show ?case by simp
next
  case (Cons x xs)
  from Cons.prems(1) obtain r' where r: "r = Suc r'" by (cases r) auto
  show ?case
  proof (cases "P x")
    case False
    with Cons.prems r have "snd (scanKeys P r xs) \<noteq> []" by simp
    from Cons.IH[OF Cons.prems(1) this] obtain ys where
      "fst (scanKeys P r xs) \<noteq> []" "xs = ys @ last (fst (scanKeys P r xs)) # snd (scanKeys P r xs)"
      by blast
    then have "fst (scanKeys P r (x # xs)) \<noteq> [] \<and>
       x # xs = (x # ys) @ last (fst (scanKeys P r (x # xs))) # snd (scanKeys P r (x # xs))"
      using False r by simp
    then show ?thesis by blast
  next
    case True
    show ?thesis
    proof (cases "r' = 0")
      case z: True
      with True r have "fst (scanKeys P r (x # xs)) = [x]" "snd (scanKeys P r (x # xs)) = xs"
        by simp_all
      then have "fst (scanKeys P r (x # xs)) \<noteq> [] \<and>
         x # xs = [] @ last (fst (scanKeys P r (x # xs))) # snd (scanKeys P r (x # xs))"
        by simp
      then show ?thesis by blast
    next
      case nz: False
      with Cons.prems True r have "snd (scanKeys P r' xs) \<noteq> []" by simp
      from Cons.IH[OF _ this] nz obtain ys where
        ne: "fst (scanKeys P r' xs) \<noteq> []"
        and "xs = ys @ last (fst (scanKeys P r' xs)) # snd (scanKeys P r' xs)"
        by auto
      then have "fst (scanKeys P r (x # xs)) \<noteq> [] \<and>
         x # xs = (x # ys) @ last (fst (scanKeys P r (x # xs))) # snd (scanKeys P r (x # xs))"
        using True r by simp
      then show ?thesis by blast
    qed
  qed
qed

lemma scanKeys_exhausted_all:
  "snd (scanKeys P r xs) = [] \<Longrightarrow> 0 < r \<Longrightarrow> fst (scanKeys P r xs) = filter P xs"
  using scanKeys_split[of xs P r] by auto

lemma scanKeys_exhausted_full_last:
  "snd (scanKeys P r xs) = [] \<Longrightarrow> length (fst (scanKeys P r xs)) = r \<Longrightarrow> 0 < r \<Longrightarrow>
   xs \<noteq> [] \<and> last xs = last (fst (scanKeys P r xs))"
proof (induction xs arbitrary: r)
  case Nil
  then show ?case by simp
next
  case (Cons x xs)
  from Cons.prems(3) obtain r' where r: "r = Suc r'" by (cases r) auto
  show ?case
  proof (cases "P x")
    case False
    with Cons.prems r have "snd (scanKeys P r xs) = []" "length (fst (scanKeys P r xs)) = r"
      by simp_all
    from Cons.IH[OF this Cons.prems(3)] False r show ?thesis by simp
  next
    case True
    show ?thesis
    proof (cases "r' = 0")
      case z: True
      with True r Cons.prems show ?thesis by simp
    next
      case nz: False
      from Cons.prems True r have "snd (scanKeys P r' xs) = []"
        "length (fst (scanKeys P r' xs)) = r'" by simp_all
      from Cons.IH[OF this] nz have "xs \<noteq> []" "last xs = last (fst (scanKeys P r' xs))"
        by simp_all
      moreover from nz \<open>length (fst (scanKeys P r' xs)) = r'\<close>
      have "fst (scanKeys P r' xs) \<noteq> []" by auto
      ultimately show ?thesis using True r by simp
    qed
  qed
qed

subsection \<open>The iterator and the keys ahead of it\<close>

lemma keysFrom_Nil_iff:
  "keysFrom it n = [] \<longleftrightarrow> length (ents it) \<le> n \<or> bad it = Some n"
  by (auto simp: keysFrom_def readLimit_def split: option.splits)

lemma keysFrom_Cons:
  assumes "n < length (ents it)" and "bad it \<noteq> Some n"
  shows "keysFrom it n = fst (ents it ! n) # keysFrom it (Suc n)"
proof -
  have lim: "readLimit it (Suc n) = readLimit it n" and gt: "n < readLimit it n"
    using assms by (auto simp: readLimit_def split: option.splits)
  from gt obtain m where m: "readLimit it n - n = Suc m" "readLimit it n - Suc n = m"
    by (cases "readLimit it n - n") auto
  have "drop n (map fst (ents it)) = fst (ents it ! n) # drop (Suc n) (map fst (ents it))"
    using assms(1) by (simp add: Cons_nth_drop_Suc[symmetric])
  then show ?thesis
    by (simp add: keysFrom_def lim m)
qed

lemma keysFrom_prefix: "\<exists>m. keysFrom it n = take m (drop n (map fst (ents it)))"
  unfolding keysFrom_def by blast

lemma keysFrom_undamaged: "bad it = None \<Longrightarrow> keysFrom it n = drop n (map fst (ents it))"
  by (simp add: keysFrom_def readLimit_def)

lemma keysFrom_update [simp]:
  "keysFrom (it\<lparr>idir := d\<rparr>) n = keysFrom it n"
  "keysFrom (it\<lparr>err := e\<rparr>) n = keysFrom it n"
  by (simp_all add: keysFrom_def readLimit_def split: option.splits)

lemma moveTo_True:
  assumes "fst (moveTo n it)"
  shows "snd (moveTo n it) = it\<lparr>idir := dirForward n\<rparr>"
    and "n < length (ents it)" and "bad it \<noteq> Some n"
  using assms by (auto simp: moveTo_def split: if_splits)

lemma moveTo_fst: "fst (moveTo n it) \<longleftrightarrow> keysFrom it n \<noteq> []"
  by (auto simp: moveTo_def keysFrom_Nil_iff)

lemma moveTo_False:
  "\<not> fst (moveTo n it) \<Longrightarrow>
     snd (moveTo n it) = it\<lparr>idir := dirEOI\<rparr> \<or> snd (moveTo n it) = it\<lparr>err := Some ErrCorrupted\<rparr>"
  by (auto simp: moveTo_def split: if_splits)

lemma iter_Next_fst: "fst (iter_Next it) \<longleftrightarrow> upcoming it \<noteq> []"
  by (auto simp: iter_Next_def upcoming_def moveTo_fst split: dir.splits)

lemma iter_Next_True:
  assumes "fst (iter_Next it)"
  shows "iter_Valid (snd (iter_Next it))"
    and "iter_Key (snd (iter_Next it)) # upcoming (snd (iter_Next it)) = upcoming it"
proof -
  from assms have e: "err it = None" by (auto simp: iter_Next_def split: if_splits)
  define n where "n = (case idir it of dirSOI \<Rightarrow> 0 | dirForward i \<Rightarrow> Suc i | dirEOI \<Rightarrow> 0)"
  from assms e have nx: "iter_Next it = moveTo n it" and ne: "idir it \<noteq> dirEOI"
    by (auto simp: iter_Next_def n_def split: dir.splits)
  from assms nx have m: "fst (moveTo n it)" by simp
  note mt = moveTo_True[OF m]
  from ne have up: "upcoming it = keysFrom it n"
    by (auto simp: upcoming_def e n_def split: dir.splits)
  show "iter_Valid (snd (iter_Next it))"
    by (simp add: nx mt(1) iter_Valid_def e)
  have "upcoming (snd (iter_Next it)) = keysFrom it (Suc n)"
    by (simp add: nx mt(1) upcoming_def e)
  moreover have "iter_Key (snd (iter_Next it)) = fst (ents it ! n)"
    by (simp add: nx mt(1) iter_Key_def mt(2))
  ultimately show "iter_Key (snd (iter_Next it)) # upcoming (snd (iter_Next it)) = upcoming it"
    unfolding up by (simp add: keysFrom_Cons[OF mt(2) mt(3)])
qed

lemma iter_Next_False:
  assumes "\<not> fst (iter_Next it)"
  shows "\<not> iter_Valid (snd (iter_Next it))" and "upcoming (snd (iter_Next it)) = []"
proof -
  have "\<not> iter_Valid (snd (iter_Next it)) \<and> upcoming (snd (iter_Next it)) = []"
  proof (cases "err it \<noteq> None \<or> idir it = dirEOI")
    case True
    then have "iter_Next it = (False, it)" by (auto simp: iter_Next_def)
    with True show ?thesis by (auto simp: iter_Valid_def upcoming_def)
  next
    case False
    define n where "n = (case idir it of dirSOI \<Rightarrow> 0 | dirForward i \<Rightarrow> Suc i | dirEOI \<Rightarrow> 0)"
    from False have nx: "iter_Next it = moveTo n it"
      by (auto simp: iter_Next_def n_def split: dir.splits)
    with assms have "\<not> fst (moveTo n it)" by simp
    from moveTo_False[OF this] show ?thesis
      by (auto simp: nx iter_Valid_def upcoming_def)
  qed
  then show "\<not> iter_Valid (snd (iter_Next it))" and "upcoming (snd (iter_Next it)) = []"
    by simp_all
qed

lemma iter_Next_Valid_iff: "iter_Valid (snd (iter_Next it)) \<longleftrightarrow> upcoming it \<noteq> []"
  using iter_Next_True(1)[of it] iter_Next_False(1)[of it] iter_Next_fst[of it] by blast

subsection \<open>The two loops as scans of the keys ahead\<close>

lemma loadInitialKeys_loop_stop:
  "\<not> fst (iter_Next it) \<Longrightarrow> loadInitialKeys_loop L s it = (s, snd (iter_Next it))"
  by (subst loadInitialKeys_loop.simps) simp

lemma loadInitialKeys_loop_skip:
  "fst (iter_Next it) \<Longrightarrow> \<not> matches L (currentPrefix s) (iter_Key (snd (iter_Next it))) \<Longrightarrow>
   loadInitialKeys_loop L s it = loadInitialKeys_loop L s (snd (iter_Next it))"
  by (subst loadInitialKeys_loop.simps) (simp add: Let_def)

lemma loadInitialKeys_loop_full:
  "fst (iter_Next it) \<Longrightarrow> matches L (currentPrefix s) (iter_Key (snd (iter_Next it))) \<Longrightarrow>
   pageSize s \<le> Suc (length (displayedKeys s)) \<Longrightarrow>
   loadInitialKeys_loop L s it = (addKey (iter_Key (snd (iter_Next it))) s, snd (iter_Next it))"
  by (subst loadInitialKeys_loop.simps) (simp add: Let_def addKey_def)

lemma loadInitialKeys_loop_match:
  "fst (iter_Next it) \<Longrightarrow> matches L (currentPrefix s) (iter_Key (snd (iter_Next it))) \<Longrightarrow>
   \<not> pageSize s \<le> Suc (length (displayedKeys s)) \<Longrightarrow>
   loadInitialKeys_loop L s it =
     loadInitialKeys_loop L (addKey (iter_Key (snd (iter_Next it))) s) (snd (iter_Next it))"
  by (subst loadInitialKeys_loop.simps) (simp add: Let_def addKey_def)

lemma sameSettings_refl [simp]: "sameSettings s s"
  by (simp add: sameSettings_def)

lemma sameSettings_addKey: "sameSettings (addKey k s) s' = sameSettings s s'"
  by (simp add: sameSettings_def addKey_def)

lemma loadInitialKeys_loop_scan:
  "displayedKeys (fst (loadInitialKeys_loop L s it)) =
     displayedKeys s @ fst (scanKeys (matches L (currentPrefix s)) (budget s) (upcoming it)) \<and>
   upcoming (snd (loadInitialKeys_loop L s it)) =
     snd (scanKeys (matches L (currentPrefix s)) (budget s) (upcoming it)) \<and>
   sameSettings s (fst (loadInitialKeys_loop L s it))"
proof (induction L s it rule: loadInitialKeys_loop.induct)
  case (1 L s it)
  let ?P = "matches L (currentPrefix s)"
  show ?case
  proof (cases "fst (iter_Next it)")
    case False
    then have "upcoming it = []" by (simp add: iter_Next_fst)
    with False iter_Next_False(2)[OF False] show ?thesis
      by (simp add: loadInitialKeys_loop_stop)
  next
    case True
    let ?it = "snd (iter_Next it)" and ?k = "iter_Key (snd (iter_Next it))"
    from iter_Next_True(2)[OF True] have up: "upcoming it = ?k # upcoming ?it" by simp
    obtain r' where r: "budget s = Suc r'" by (cases "budget s") (auto simp: budget_def)
    show ?thesis
    proof (cases "?P ?k")
      case m: False
      from "1.IH"(2)[OF True refl refl] m
      show ?thesis
        by (simp add: loadInitialKeys_loop_skip[OF True m] up r)
    next
      case m: True
      show ?thesis
      proof (cases "pageSize s \<le> Suc (length (displayedKeys s))")
        case full: True
        then have "r' = 0" using r by (auto simp: budget_def max_def split: if_splits)
        with m show ?thesis
          by (simp add: loadInitialKeys_loop_full[OF True m full] up r addKey_def sameSettings_def)
      next
        case nfull: False
        then have r2: "budget (addKey ?k s) = r'"
          using r by (auto simp: budget_def addKey_def max_def split: if_splits)
        have nfull': "\<not> pageSize s \<le> length (displayedKeys (addKey ?k s))"
          using nfull by (simp add: addKey_def)
        have cp: "currentPrefix (addKey ?k s) = currentPrefix s" by (simp add: addKey_def)
        from "1.IH"(1)[OF True refl refl m nfull']
        show ?thesis
          unfolding loadInitialKeys_loop_match[OF True m nfull] r2 cp up r sameSettings_addKey
          using m by (simp add: addKey_def)
      qed
    qed
  qed
qed

lemma loadNextPage_loop_scan:
  assumes "iter_Valid it"
  shows "displayedKeys (fst (loadNextPage_loop L s it c)) =
     displayedKeys s @
       fst (scanKeys (matches L (currentPrefix s)) (pageSize s - c) (iter_Key it # upcoming it)) \<and>
   iter_Valid (fst (snd (loadNextPage_loop L s it c))) =
     (snd (scanKeys (matches L (currentPrefix s)) (pageSize s - c) (iter_Key it # upcoming it)) \<noteq> []) \<and>
   sameSettings s (fst (loadNextPage_loop L s it c))"
  using assms
proof (induction L s it c rule: loadNextPage_loop.induct)
  case (1 L s it c)
  let ?P = "matches L (currentPrefix s)"
  note v = "1.prems"
  show ?case
  proof (cases "c < pageSize s")
    case False
    then show ?thesis using v by (simp add: loadNextPage_loop_stop)
  next
    case True
    then obtain r' where r: "pageSize s - c = Suc r'" by (cases "pageSize s - c") auto
    have vc: "iter_Valid it \<and> c < pageSize s" using v True by simp
    let ?it = "snd (iter_Next it)"
    show ?thesis
    proof (cases "iter_Valid ?it")
      case nv: False
      then have up: "upcoming it = []" by (simp add: iter_Next_Valid_iff)
      have stop: "loadNextPage_loop L s' ?it c' = (s', ?it, c')" for s' c'
        using nv by (simp add: loadNextPage_loop_stop)
      show ?thesis
      proof (cases "?P (iter_Key it)")
        case m: True
        show ?thesis
          unfolding loadNextPage_loop_match[OF v True m] stop
          using m nv by (simp add: up r addKey_def sameSettings_def)
      next
        case m: False
        show ?thesis
          unfolding loadNextPage_loop_skip[OF v True m] stop
          using m nv by (simp add: up r)
      qed
    next
      case valid: True
      then have nx: "fst (iter_Next it)" by (simp add: iter_Next_Valid_iff iter_Next_fst)
      from iter_Next_True(2)[OF nx] have up: "upcoming it = iter_Key ?it # upcoming ?it" by simp
      show ?thesis
      proof (cases "?P (iter_Key it)")
        case m: True
        have r2: "pageSize (addKey (iter_Key it) s) - (c + 1) = r'"
          using r by (simp add: addKey_def)
        have cp: "currentPrefix (addKey (iter_Key it) s) = currentPrefix s" by (simp add: addKey_def)
        from "1.IH"(1)[OF vc refl m valid]
        show ?thesis
          unfolding loadNextPage_loop_match[OF v True m] r2 cp r sameSettings_addKey
          using m by (simp add: addKey_def up)
      next
        case m: False
        from "1.IH"(2)[OF vc refl m valid]
        show ?thesis
          unfolding loadNextPage_loop_skip[OF v True m] r
          using m by (simp add: up)
      qed
    qed
  qed
qed

subsection \<open>First page and extension as scans of the store\<close>

lemma upcoming_NewIterator: "upcoming (db_NewIterator d) = visibleKeys d 0"
  by (simp add: upcoming_def db_NewIterator_def visibleKeys_def)

lemma visibleKeys_undamaged: "damaged d = None \<Longrightarrow> visibleKeys d n = drop n (store_keys d)"
  by (simp add: visibleKeys_def keysFrom_undamaged db_NewIterator_def store_keys_def)

lemma visibleKeys_prefix: "\<exists>m. visibleKeys d n = take m (drop n (store_keys d))"
  using keysFrom_prefix[of "db_NewIterator d" n]
  by (simp add: visibleKeys_def db_NewIterator_def store_keys_def)

lemma loadInitialKeys_scan:
  "displayedKeys (loadInitialKeys L s) =
     fst (scanKeys (matches L (currentPrefix s)) (max 1 (pageSize s)) (visibleKeys (db s) 0)) \<and>
   hasMoreKeys (loadInitialKeys L s) =
     (snd (scanKeys (matches L (currentPrefix s)) (max 1 (pageSize s)) (visibleKeys (db s) 0)) \<noteq> []) \<and>
   pageSize (loadInitialKeys L s) = pageSize s \<and>
   currentPrefix (loadInitialKeys L s) = currentPrefix s \<and>
   db (loadInitialKeys L s) = db s"
proof -
  define s1 where "s1 = s\<lparr>keyList := [], currentItem := 0, currentPosition := 0,
                 displayedKeys := [], hasMoreKeys := True\<rparr>"
  define r where "r = loadInitialKeys_loop L s1 (db_NewIterator (db s))"
  have s1: "displayedKeys s1 = []" "currentPrefix s1 = currentPrefix s" "pageSize s1 = pageSize s"
    "db s1 = db s" by (simp_all add: s1_def)
  have b: "budget s1 = max 1 (pageSize s)" by (simp add: budget_def s1)
  from loadInitialKeys_loop_scan[of L s1 "db_NewIterator (db s)"]
  have d: "displayedKeys (fst r) =
      fst (scanKeys (matches L (currentPrefix s)) (max 1 (pageSize s)) (visibleKeys (db s) 0))"
    and u: "upcoming (snd r) =
      snd (scanKeys (matches L (currentPrefix s)) (max 1 (pageSize s)) (visibleKeys (db s) 0))"
    and same: "sameSettings s1 (fst r)"
    by (simp_all add: r_def s1 b upcoming_NewIterator)
  have l: "loadInitialKeys L s =
      (case iter_Error (snd (iter_Next (snd r))) of
         Some e \<Rightarrow> setStatus (''[red]Error: '' @ Error e) ((fst r)\<lparr>hasMoreKeys := fst (iter_Next (snd r))\<rparr>)
       | None \<Rightarrow> (fst r)\<lparr>hasMoreKeys := fst (iter_Next (snd r))\<rparr>)"
    by (simp add: loadInitialKeys_def Let_def split_beta r_def s1_def cong: option.case_cong)
  from same s1 have keep: "pageSize (fst r) = pageSize s" "currentPrefix (fst r) = currentPrefix s"
    "db (fst r) = db s" by (simp_all add: sameSettings_def)
  show ?thesis
    unfolding l using d u keep
    by (simp add: setStatus_def iter_Next_fst split: option.splits)
qed

lemma iter_Seek_NewIterator:
  "iter_Seek k (db_NewIterator d) = moveTo (seekIndex k (entries d)) (db_NewIterator d)"
  by (simp add: iter_Seek_def db_NewIterator_def)

lemma upcoming_forward: "err it = None \<Longrightarrow> upcoming (it\<lparr>idir := dirForward j\<rparr>) = keysFrom it (Suc j)"
  by (simp add: upcoming_def)

lemma err_NewIterator: "err (db_NewIterator d) = None"
  by (simp add: db_NewIterator_def)

lemma upcoming_after_Seek:
  assumes "fst (iter_Seek k (db_NewIterator d))"
  shows "upcoming (snd (iter_Seek k (db_NewIterator d))) = visibleKeys d (Suc (seekIndex k (entries d)))"
proof -
  from assms have m: "fst (moveTo (seekIndex k (entries d)) (db_NewIterator d))"
    by (simp add: iter_Seek_NewIterator)
  show ?thesis
    unfolding iter_Seek_NewIterator moveTo_True(1)[OF m] visibleKeys_def
    by (rule upcoming_forward[OF err_NewIterator])
qed

lemma iter_Seek_found_iff:
  "fst (iter_Seek k (db_NewIterator d)) \<longleftrightarrow>
     seekIndex k (entries d) < length (entries d) \<and> damaged d \<noteq> Some (seekIndex k (entries d))"
  unfolding iter_Seek_NewIterator by (auto simp: moveTo_def db_NewIterator_def)

lemma loadNextPage_skip:
  "\<not> hasMoreKeys s \<or> displayedKeys s = [] \<or>
     \<not> fst (iter_Seek (last (displayedKeys s)) (db_NewIterator (db s))) \<Longrightarrow>
   loadNextPage L s = (False, s)"
  by (auto simp: loadNextPage_def Let_def split_beta)

lemma loadNextPage_scan:
  assumes "hasMoreKeys s" and "displayedKeys s \<noteq> []"
    and found: "fst (iter_Seek (last (displayedKeys s)) (db_NewIterator (db s)))"
  defines "j \<equiv> seekIndex (last (displayedKeys s)) (entries (db s))"
  shows "displayedKeys (snd (loadNextPage L s)) =
           displayedKeys s @
             fst (scanKeys (matches L (currentPrefix s)) (pageSize s) (visibleKeys (db s) (Suc j))) \<and>
         hasMoreKeys (snd (loadNextPage L s)) =
           (snd (scanKeys (matches L (currentPrefix s)) (pageSize s) (visibleKeys (db s) (Suc j))) \<noteq> []) \<and>
         pageSize (snd (loadNextPage L s)) = pageSize s \<and>
         currentPrefix (snd (loadNextPage L s)) = currentPrefix s \<and>
         db (snd (loadNextPage L s)) = db s \<and>
         statusMessage (snd (loadNextPage L s)) = statusMessage s"
proof -
  define it1 where "it1 = snd (iter_Seek (last (displayedKeys s)) (db_NewIterator (db s)))"
  define it2 where "it2 = snd (iter_Next it1)"
  define r where "r = loadNextPage_loop L s it2 0"
  have up1: "upcoming it1 = visibleKeys (db s) (Suc j)"
    unfolding it1_def j_def by (rule upcoming_after_Seek[OF found])
  have l: "snd (loadNextPage L s) = (fst r)\<lparr>hasMoreKeys := iter_Valid (fst (snd r))\<rparr>"
    using assms(1,2) found
    by (simp add: loadNextPage_def Let_def split_beta r_def it2_def it1_def)
  have main: "displayedKeys (fst r) =
           displayedKeys s @
             fst (scanKeys (matches L (currentPrefix s)) (pageSize s) (upcoming it1)) \<and>
         iter_Valid (fst (snd r)) =
           (snd (scanKeys (matches L (currentPrefix s)) (pageSize s) (upcoming it1)) \<noteq> []) \<and>
         sameSettings s (fst r)"
  proof (cases "iter_Valid it2")
    case True
    then have "fst (iter_Next it1)"
      by (simp add: it2_def iter_Next_Valid_iff iter_Next_fst)
    from iter_Next_True(2)[OF this] have "iter_Key it2 # upcoming it2 = upcoming it1"
      by (simp add: it2_def)
    with loadNextPage_loop_scan[OF True, of L s 0] show ?thesis
      by (simp add: r_def)
  next
    case False
    then have "upcoming it1 = []" by (simp add: it2_def iter_Next_Valid_iff)
    with False show ?thesis by (simp add: r_def loadNextPage_loop_stop)
  qed
  show ?thesis
    unfolding l using main by (simp add: up1 sameSettings_def)
qed

subsection \<open>A sorted store: where the seek lands\<close>

lemma seekIndex_nth:
  assumes "sorted_wrt (<) (map fst es)" and "j < length es"
  shows "seekIndex (fst (es ! j)) es = j"
proof -
  have lt: "\<forall>i<j. fst (es ! i) < fst (es ! j)"
    using assms by (auto simp: sorted_wrt_iff_nth_less)
  have "takeWhile (\<lambda>e. fst e < fst (es ! j)) es = take j es"
    by (rule takeWhile_eq_take_P_nth) (use lt assms(2) in auto)
  with assms(2) show ?thesis by (simp add: seekIndex_def)
qed

lemma seekIndex_key:
  assumes "sorted_wrt (<) (store_keys d)" and "j < length (store_keys d)"
  shows "seekIndex (store_keys d ! j) (entries d) = j"
  using seekIndex_nth[of "entries d" j] assms by (simp add: store_keys_def)

subsection \<open>Lists: prefixes of the matching keys\<close>

lemma strings_Contains_iff: "strings_Contains s sub \<longleftrightarrow> (\<exists>a b. s = a @ sub @ b)"
proof (induction s)
  case Nil
  then show ?case by auto
next
  case (Cons c s)
  show ?case
  proof
    assume "strings_Contains (c # s) sub"
    then consider "take (length sub) (c # s) = sub" | "strings_Contains s sub" by auto
    then show "\<exists>a b. c # s = a @ sub @ b"
    proof cases
      case 1
      then have "c # s = [] @ sub @ drop (length sub) (c # s)"
        by (metis append_Nil append_take_drop_id)
      then show ?thesis by blast
    next
      case 2
      with Cons obtain a b where "s = a @ sub @ b" by blast
      then have "c # s = (c # a) @ sub @ b" by simp
      then show ?thesis by blast
    qed
  next
    assume "\<exists>a b. c # s = a @ sub @ b"
    then obtain a b where ab: "c # s = a @ sub @ b" by blast
    show "strings_Contains (c # s) sub"
    proof (cases a)
      case Nil
      with ab have "take (length sub) (c # s) = sub" by simp
      then show ?thesis by simp
    next
      case (Cons x a')
      with ab have "s = a' @ sub @ b" by simp
      with Cons.IH have "strings_Contains s sub" by blast
      then show ?thesis by simp
    qed
  qed
qed

lemma filter_take_prefix: "\<exists>m. filter P (take n xs) = take m (filter P xs)"
proof -
  have "filter P xs = filter P (take n xs) @ filter P (drop n xs)"
    by (metis append_take_drop_id filter_append)
  then have "filter P (take n xs) = take (length (filter P (take n xs))) (filter P xs)"
    by simp
  then show ?thesis ..
qed

lemma last_take_nth:
  assumes "0 < m" and "m \<le> length xs"
  shows "last (take m xs) = xs ! (m - 1)"
proof -
  from assms have ne: "take m xs \<noteq> []" by auto
  from assms have len: "length (take m xs) = m" by simp
  from assms have "take m xs ! (m - 1) = xs ! (m - 1)" by simp
  with ne len show ?thesis by (simp add: last_conv_nth)
qed

lemma take_min_length: "take (min m (length zs)) zs = take m zs"
  by (cases "m \<le> length zs") (simp_all add: min_def)

lemma distinct_prefix_same_last:
  assumes "distinct zs" and "xs = take m zs" and "ys = take n zs"
    and "xs \<noteq> []" and "ys \<noteq> []" and "last xs = last ys"
  shows "xs = ys"
proof -
  define m' where "m' = min m (length zs)"
  define n' where "n' = min n (length zs)"
  have xs: "xs = take m' zs" and ys: "ys = take n' zs"
    using assms(2,3) by (simp_all add: m'_def n'_def take_min_length)
  have m: "0 < m'" "m' \<le> length zs" and n: "0 < n'" "n' \<le> length zs"
    using assms(4,5) xs ys by (auto simp: m'_def n'_def)
  from assms(6) have "zs ! (m' - 1) = zs ! (n' - 1)"
    unfolding xs ys by (simp add: last_take_nth m n)
  with assms(1) m n have "m' - 1 = n' - 1"
    by (simp add: nth_eq_iff_index_eq)
  with m n have "m' = n'" by simp
  with xs ys show ?thesis by simp
qed

lemma shown_upto_last:
  assumes "distinct K" and "j < length K" and "xs = take m (filter P K)" and "xs \<noteq> []"
    and "last xs = K ! j"
  shows "xs = filter P (take (Suc j) K)"
proof -
  from assms(3,4) have "last xs \<in> set (filter P K)"
    by (metis in_set_takeD last_in_set)
  with assms(5) have p: "P (K ! j)" by simp
  have t: "take (Suc j) K = take j K @ [K ! j]"
    using assms(2) by (simp add: take_Suc_conv_app_nth)
  let ?A = "filter P (take (Suc j) K)"
  from p t have A: "?A \<noteq> []" "last ?A = K ! j" by simp_all
  obtain n where n: "?A = take n (filter P K)"
    using filter_take_prefix[of P "Suc j" K] by blast
  show ?thesis
    by (rule distinct_prefix_same_last[of "filter P K" xs m ?A n])
       (use assms A n in simp_all)
qed

lemma last_in_store:
  assumes "xs = take m (filter P K)" and "xs \<noteq> []"
  obtains j where "j < length K" and "last xs = K ! j"
proof -
  from assms have "last xs \<in> set K"
    by (metis filter_is_subset in_set_takeD last_in_set subsetD)
  then show ?thesis using that by (auto simp: in_set_conv_nth)
qed

subsection \<open>What an extension keeps\<close>

lemma loadNextPage_keeps:
  "pageSize (snd (loadNextPage L s)) = pageSize s \<and>
   currentPrefix (snd (loadNextPage L s)) = currentPrefix s \<and>
   db (snd (loadNextPage L s)) = db s \<and>
   statusMessage (snd (loadNextPage L s)) = statusMessage s"
proof (cases "hasMoreKeys s \<and> displayedKeys s \<noteq> [] \<and>
    fst (iter_Seek (last (displayedKeys s)) (db_NewIterator (db s)))")
  case True
  with loadNextPage_scan[of s L] show ?thesis by simp
next
  case False
  then have "loadNextPage L s = (False, s)" by (intro loadNextPage_skip) blast
  then show ?thesis by simp
qed

lemma extendTimes_keeps:
  "pageSize (extendTimes L n s) = pageSize s \<and>
   currentPrefix (extendTimes L n s) = currentPrefix s \<and>
   db (extendTimes L n s) = db s"
  by (induction n) (simp_all add: loadNextPage_keeps)

lemma loadNextPage_appended:
  "\<exists>new. displayedKeys (snd (loadNextPage L s)) = displayedKeys s @ new \<and>
         length new \<le> pageSize s \<and> (\<forall>k\<in>set new. matches L (currentPrefix s) k)"
proof (cases "hasMoreKeys s \<and> displayedKeys s \<noteq> [] \<and>
    fst (iter_Seek (last (displayedKeys s)) (db_NewIterator (db s)))")
  case True
  let ?new = "fst (scanKeys (matches L (currentPrefix s)) (pageSize s)
     (visibleKeys (db s) (Suc (seekIndex (last (displayedKeys s)) (entries (db s))))))"
  from True loadNextPage_scan[of s L]
  have "displayedKeys (snd (loadNextPage L s)) = displayedKeys s @ ?new" by simp
  moreover have "length ?new \<le> pageSize s" by (simp add: scanKeys_fst)
  moreover have "\<forall>k\<in>set ?new. matches L (currentPrefix s) k"
    by (auto simp: scanKeys_fst dest: in_set_takeD)
  ultimately show ?thesis by blast
next
  case False
  then have "loadNextPage L s = (False, s)" by (intro loadNextPage_skip) blast
  then show ?thesis by simp
qed

lemma loadInitialKeys_matching:
  "\<forall>k\<in>set (displayedKeys (loadInitialKeys L s)). matches L (currentPrefix s) k"
  using loadInitialKeys_scan[of L s] by (auto simp: scanKeys_fst dest: in_set_takeD)

lemma extendTimes_matching:
  "\<forall>k\<in>set (displayedKeys (extendTimes L n (loadInitialKeys L s))). matches L (currentPrefix s) k"
proof (induction n)
  case 0
  then show ?case by (simp add: loadInitialKeys_matching)
next
  case (Suc n)
  let ?s = "extendTimes L n (loadInitialKeys L s)"
  have cp: "currentPrefix ?s = currentPrefix s"
    using extendTimes_keeps[of L n "loadInitialKeys L s"] loadInitialKeys_scan[of L s] by simp
  from loadNextPage_appended[of L ?s] obtain new where
    "displayedKeys (snd (loadNextPage L ?s)) = displayedKeys ?s @ new"
    "\<forall>k\<in>set new. matches L (currentPrefix s) k"
    unfolding cp by blast
  with Suc show ?case by auto
qed

text \<open>
  Claim C1. After the first-page load and any number of extensions, every displayed key
  matched the filter: the filter is empty, or the lower-cased key contains the lower-cased
  filter as a contiguous substring. With the empty filter every key matches.
\<close>

theorem pages_hold_matching_keys:
  "(\<forall>k\<in>set (displayedKeys (extendTimes ToLower n (loadInitialKeys ToLower s))).
      currentPrefix s = [] \<or> (\<exists>a b. ToLower k = a @ ToLower (currentPrefix s) @ b)) \<and>
   matches ToLower [] key"
  using extendTimes_matching[of ToLower n s]
  by (simp add: matches_def strings_Contains_iff)

theorem pages_hold_matching_keys_witness:
  "displayedKeys (extendTimes asciiLower 1 (loadInitialKeys asciiLower (initSession 2 ''AN'' fruitStore)))
     = [''Banana''] \<and>
   (\<exists>a b. asciiLower ''Banana'' = a @ asciiLower ''AN'' @ b)"
proof -
  have keys: "displayedKeys (extendTimes asciiLower 1
      (loadInitialKeys asciiLower (initSession 2 ''AN'' fruitStore))) = [''Banana'']"
    by code_simp
  have f: "currentPrefix (initSession 2 ''AN'' fruitStore) = ''AN''"
    by (simp add: initSession_def)
  from pages_hold_matching_keys[of asciiLower 1 "initSession 2 ''AN'' fruitStore" "[]"]
  have "\<exists>a b. asciiLower ''Banana'' = a @ asciiLower ''AN'' @ b"
    unfolding keys f by simp
  with keys show ?thesis by simp
qed

subsection \<open>Pages are prefixes of the matching keys of the store\<close>

lemma loadInitialKeys_prefix:
  "\<exists>m. displayedKeys (loadInitialKeys L s) =
     take m (filter (matches L (currentPrefix s)) (store_keys (db s)))"
proof -
  obtain n where "visibleKeys (db s) 0 = take n (store_keys (db s))"
    using visibleKeys_prefix[of "db s" 0] by auto
  moreover obtain m where "filter (matches L (currentPrefix s)) (take n (store_keys (db s)))
      = take m (filter (matches L (currentPrefix s)) (store_keys (db s)))"
    using filter_take_prefix by blast
  ultimately have "displayedKeys (loadInitialKeys L s) =
     take (min (max 1 (pageSize s)) m) (filter (matches L (currentPrefix s)) (store_keys (db s)))"
    using loadInitialKeys_scan[of L s] by (simp add: scanKeys_fst)
  then show ?thesis ..
qed

lemma loadNextPage_prefix:
  assumes sorted: "sorted_wrt (<) (store_keys (db s))"
    and pre: "displayedKeys s = take m (filter (matches L (currentPrefix s)) (store_keys (db s)))"
  shows "\<exists>m'. displayedKeys (snd (loadNextPage L s)) =
     take m' (filter (matches L (currentPrefix s)) (store_keys (db s)))"
proof (cases "hasMoreKeys s \<and> displayedKeys s \<noteq> [] \<and>
    fst (iter_Seek (last (displayedKeys s)) (db_NewIterator (db s)))")
  case False
  then have "loadNextPage L s = (False, s)" by (intro loadNextPage_skip) blast
  with pre show ?thesis by auto
next
  case True
  let ?P = "matches L (currentPrefix s)" and ?K = "store_keys (db s)"
  from sorted have dist: "distinct ?K" by (simp add: strict_sorted_iff)
  from True have ne: "displayedKeys s \<noteq> []" by simp
  from last_in_store[OF pre ne] obtain j where j: "j < length ?K" "last (displayedKeys s) = ?K ! j"
    by blast
  have seek: "seekIndex (last (displayedKeys s)) (entries (db s)) = j"
    unfolding j(2) by (rule seekIndex_key[OF sorted j(1)])
  have shown: "displayedKeys s = filter ?P (take (Suc j) ?K)"
    by (rule shown_upto_last[OF dist j(1) pre ne j(2)])
  obtain n where n: "visibleKeys (db s) (Suc j) = take n (drop (Suc j) ?K)"
    using visibleKeys_prefix[of "db s" "Suc j"] by auto
  obtain q where q: "filter ?P (take n (drop (Suc j) ?K)) = take q (filter ?P (drop (Suc j) ?K))"
    using filter_take_prefix by blast
  from True loadNextPage_scan[of s L]
  have "displayedKeys (snd (loadNextPage L s)) =
      filter ?P (take (Suc j) ?K) @ take (min (pageSize s) q) (filter ?P (drop (Suc j) ?K))"
    by (simp add: seek scanKeys_fst n q shown[symmetric])
  also have "\<dots> = take (length (filter ?P (take (Suc j) ?K)) + min (pageSize s) q)
      (filter ?P (take (Suc j) ?K) @ filter ?P (drop (Suc j) ?K))"
    by simp
  also have "filter ?P (take (Suc j) ?K) @ filter ?P (drop (Suc j) ?K) = filter ?P ?K"
    by (metis append_take_drop_id filter_append)
  finally show ?thesis ..
qed

lemma extendTimes_prefix:
  assumes "sorted_wrt (<) (store_keys (db s))"
  shows "\<exists>m. displayedKeys (extendTimes L n (loadInitialKeys L s)) =
     take m (filter (matches L (currentPrefix s)) (store_keys (db s)))"
proof (induction n)
  case 0
  then show ?case by (simp add: loadInitialKeys_prefix)
next
  case (Suc n)
  let ?s = "extendTimes L n (loadInitialKeys L s)"
  have keep: "currentPrefix ?s = currentPrefix s" "db ?s = db s"
    using extendTimes_keeps[of L n "loadInitialKeys L s"] loadInitialKeys_scan[of L s] by simp_all
  from Suc obtain m where "displayedKeys ?s =
      take m (filter (matches L (currentPrefix ?s)) (store_keys (db ?s)))"
    unfolding keep by blast
  from loadNextPage_prefix[OF _ this] assms show ?case
    by (simp add: keep)
qed

text \<open>
  Claim C2. On a store whose keys are strictly increasing, the displayed keys after the
  first-page load and \<open>n\<close> extensions are a prefix of the store's matching keys, taken in
  store order: nothing is re-ordered, no matching key between two displayed keys is left
  out, and the sequence is strictly increasing, so no key appears twice. One more extension
  only appends to it. This holds for every page size and also when the store has a damaged
  entry.
\<close>

theorem pages_increase_in_store_order:
  assumes "sorted_wrt (<) (store_keys (db s))"
  shows "(\<exists>m. displayedKeys (extendTimes ToLower n (loadInitialKeys ToLower s)) =
            take m (filter (matches ToLower (currentPrefix s)) (store_keys (db s)))) \<and>
         sorted_wrt (<) (displayedKeys (extendTimes ToLower n (loadInitialKeys ToLower s))) \<and>
         (\<exists>new. displayedKeys (extendTimes ToLower (Suc n) (loadInitialKeys ToLower s)) =
            displayedKeys (extendTimes ToLower n (loadInitialKeys ToLower s)) @ new)"
proof -
  from extendTimes_prefix[OF assms, of ToLower n] obtain m where
    m: "displayedKeys (extendTimes ToLower n (loadInitialKeys ToLower s)) =
            take m (filter (matches ToLower (currentPrefix s)) (store_keys (db s)))" by blast
  from assms have "sorted_wrt (<) (take m (filter (matches ToLower (currentPrefix s)) (store_keys (db s))))"
    by (intro sorted_wrt_take sorted_wrt_filter)
  moreover have "\<exists>new. displayedKeys (extendTimes ToLower (Suc n) (loadInitialKeys ToLower s)) =
            displayedKeys (extendTimes ToLower n (loadInitialKeys ToLower s)) @ new"
    using loadNextPage_appended[of ToLower "extendTimes ToLower n (loadInitialKeys ToLower s)"]
    by auto
  ultimately show ?thesis using m by auto
qed

theorem pages_increase_in_store_order_witness:
  "sorted_wrt (<) (store_keys fruitStore) \<and>
   displayedKeys (loadInitialKeys asciiLower (initSession 2 [] fruitStore)) = [''Banana'', ''apple''] \<and>
   displayedKeys (extendTimes asciiLower 1 (loadInitialKeys asciiLower (initSession 2 [] fruitStore)))
     = [''Banana'', ''apple'', ''cherry''] \<and>
   sorted_wrt (<) (displayedKeys (extendTimes asciiLower 1
      (loadInitialKeys asciiLower (initSession 2 [] fruitStore))))"
proof -
  have d: "db (initSession 2 [] fruitStore) = fruitStore" by (simp add: initSession_def)
  have srt: "sorted_wrt (<) (store_keys fruitStore)" by code_simp
  then have srt': "sorted_wrt (<) (store_keys (db (initSession 2 [] fruitStore)))"
    by (simp add: d)
  have k0: "displayedKeys (loadInitialKeys asciiLower (initSession 2 [] fruitStore))
      = [''Banana'', ''apple'']" by code_simp
  have k1: "displayedKeys (extendTimes asciiLower 1
      (loadInitialKeys asciiLower (initSession 2 [] fruitStore))) = [''Banana'', ''apple'', ''cherry'']"
    by code_simp
  from pages_increase_in_store_order[OF srt', of asciiLower 1]
  have "sorted_wrt (<) (displayedKeys (extendTimes asciiLower 1
      (loadInitialKeys asciiLower (initSession 2 [] fruitStore))))"
    by blast
  with srt k0 k1 show ?thesis by simp
qed

subsection \<open>How many keys a page holds\<close>

lemma loadInitialKeys_exact:
  assumes "damaged (db s) = None" and "0 < pageSize s"
  shows "displayedKeys (loadInitialKeys L s) =
           take (pageSize s) (filter (matches L (currentPrefix s)) (store_keys (db s)))"
    and "\<not> hasMoreKeys (loadInitialKeys L s) \<Longrightarrow>
           displayedKeys (loadInitialKeys L s) = filter (matches L (currentPrefix s)) (store_keys (db s))"
proof -
  have v: "visibleKeys (db s) 0 = store_keys (db s)"
    using assms(1) by (simp add: visibleKeys_undamaged)
  have r: "max 1 (pageSize s) = pageSize s" using assms(2) by simp
  note sc = loadInitialKeys_scan[of L s, unfolded v r]
  from sc show "displayedKeys (loadInitialKeys L s) =
           take (pageSize s) (filter (matches L (currentPrefix s)) (store_keys (db s)))"
    by (simp add: scanKeys_fst)
  assume "\<not> hasMoreKeys (loadInitialKeys L s)"
  with sc have "snd (scanKeys (matches L (currentPrefix s)) (pageSize s) (store_keys (db s))) = []"
    by simp
  from scanKeys_exhausted_all[OF this assms(2)] sc
  show "displayedKeys (loadInitialKeys L s) = filter (matches L (currentPrefix s)) (store_keys (db s))"
    by simp
qed

text \<open>An extension that runs, on a sorted store without damage.\<close>

lemma loadNextPage_run:
  assumes sorted: "sorted_wrt (<) (store_keys (db s))" and und: "damaged (db s) = None"
    and more: "hasMoreKeys s" and ne: "displayedKeys s \<noteq> []"
    and j: "j < length (store_keys (db s))" "last (displayedKeys s) = store_keys (db s) ! j"
  shows "displayedKeys (snd (loadNextPage L s)) =
           displayedKeys s @
             fst (scanKeys (matches L (currentPrefix s)) (pageSize s) (drop (Suc j) (store_keys (db s))))"
    and "hasMoreKeys (snd (loadNextPage L s)) =
           (snd (scanKeys (matches L (currentPrefix s)) (pageSize s)
                  (drop (Suc j) (store_keys (db s)))) \<noteq> [])"
proof -
  have seek: "seekIndex (last (displayedKeys s)) (entries (db s)) = j"
    unfolding j(2) by (rule seekIndex_key[OF sorted j(1)])
  have found: "fst (iter_Seek (last (displayedKeys s)) (db_NewIterator (db s)))"
    using j(1) und by (simp add: iter_Seek_found_iff seek store_keys_def)
  note sc = loadNextPage_scan[OF more ne found, of L, unfolded seek visibleKeys_undamaged[OF und]]
  from sc show "displayedKeys (snd (loadNextPage L s)) =
           displayedKeys s @
             fst (scanKeys (matches L (currentPrefix s)) (pageSize s) (drop (Suc j) (store_keys (db s))))"
    by simp
  from sc show "hasMoreKeys (snd (loadNextPage L s)) =
           (snd (scanKeys (matches L (currentPrefix s)) (pageSize s)
                  (drop (Suc j) (store_keys (db s)))) \<noteq> [])"
    by simp
qed

lemma take_more_of_prefix:
  assumes "A = take N (A @ B)"
  shows "A @ take p B = take (N + p) (A @ B)"
proof (cases "length A = N")
  case True
  then show ?thesis by simp
next
  case False
  from assms have "length A = min N (length A + length B)" 
    by (metis length_append length_take min.commute)
  with False have "B = []" and "length A \<le> N" by (auto simp: min_def split: if_splits)
  then show ?thesis by simp
qed

lemma loadNextPage_exact:
  assumes sorted: "sorted_wrt (<) (store_keys (db s))" and und: "damaged (db s) = None"
    and ps: "0 < pageSize s" and N: "0 < N"
    and pre: "displayedKeys s = take N (filter (matches L (currentPrefix s)) (store_keys (db s)))"
    and fin: "\<not> hasMoreKeys s \<Longrightarrow>
                displayedKeys s = filter (matches L (currentPrefix s)) (store_keys (db s))"
  shows "displayedKeys (snd (loadNextPage L s)) =
           take (N + pageSize s) (filter (matches L (currentPrefix s)) (store_keys (db s)))"
    and "\<not> hasMoreKeys (snd (loadNextPage L s)) \<Longrightarrow>
           displayedKeys (snd (loadNextPage L s)) =
             filter (matches L (currentPrefix s)) (store_keys (db s))"
proof -
  let ?P = "matches L (currentPrefix s)" and ?K = "store_keys (db s)"
  have "displayedKeys (snd (loadNextPage L s)) = take (N + pageSize s) (filter ?P ?K) \<and>
        (\<not> hasMoreKeys (snd (loadNextPage L s)) \<longrightarrow>
           displayedKeys (snd (loadNextPage L s)) = filter ?P ?K)"
  proof (cases "hasMoreKeys s")
    case False
    then have skip: "loadNextPage L s = (False, s)" by (intro loadNextPage_skip) simp
    from fin[OF False] pre have "length (filter ?P ?K) \<le> N"
      by (metis length_take min.cobounded2 min.commute)
    with skip fin[OF False] False show ?thesis by simp
  next
    case more: True
    show ?thesis
    proof (cases "displayedKeys s = []")
      case True
      then have skip: "loadNextPage L s = (False, s)" by (intro loadNextPage_skip) simp
      from True pre N have "filter ?P ?K = []" by (cases "filter ?P ?K") auto
      with skip True more show ?thesis by simp
    next
      case ne: False
      from sorted have dist: "distinct ?K" by (simp add: strict_sorted_iff)
      from last_in_store[OF pre ne] obtain j where
        j: "j < length ?K" "last (displayedKeys s) = ?K ! j" by blast
      let ?D = "drop (Suc j) ?K"
      have shown: "displayedKeys s = filter ?P (take (Suc j) ?K)"
        by (rule shown_upto_last[OF dist j(1) pre ne j(2)])
      have F: "filter ?P ?K = displayedKeys s @ filter ?P ?D"
        unfolding shown by (metis append_take_drop_id filter_append)
      note run = loadNextPage_run[OF sorted und more ne j, of L]
      from pre have "displayedKeys s = take N (displayedKeys s @ filter ?P ?D)"
        unfolding F[symmetric] .
      from take_more_of_prefix[OF this, of "pageSize s"]
      have a: "displayedKeys (snd (loadNextPage L s)) = take (N + pageSize s) (filter ?P ?K)"
        unfolding run(1) F by (simp add: scanKeys_fst)
      have b: "displayedKeys (snd (loadNextPage L s)) = filter ?P ?K"
        if "\<not> hasMoreKeys (snd (loadNextPage L s))"
      proof -
        from that run(2) have "snd (scanKeys ?P (pageSize s) ?D) = []" by simp
        from scanKeys_exhausted_all[OF this ps] show ?thesis
          unfolding run(1) F by simp
      qed
      from a b show ?thesis by blast
    qed
  qed
  then show "displayedKeys (snd (loadNextPage L s)) =
           take (N + pageSize s) (filter (matches L (currentPrefix s)) (store_keys (db s)))"
    and "\<not> hasMoreKeys (snd (loadNextPage L s)) \<Longrightarrow>
           displayedKeys (snd (loadNextPage L s)) =
             filter (matches L (currentPrefix s)) (store_keys (db s))"
    by blast+
qed

lemma extendTimes_exact:
  assumes "sorted_wrt (<) (store_keys (db s))" and "damaged (db s) = None" and "0 < pageSize s"
  shows "displayedKeys (extendTimes L n (loadInitialKeys L s)) =
           take ((n + 1) * pageSize s) (filter (matches L (currentPrefix s)) (store_keys (db s))) \<and>
         (\<not> hasMoreKeys (extendTimes L n (loadInitialKeys L s)) \<longrightarrow>
            displayedKeys (extendTimes L n (loadInitialKeys L s)) =
              filter (matches L (currentPrefix s)) (store_keys (db s)))"
proof (induction n)
  case 0
  from loadInitialKeys_exact[OF assms(2,3), of L] show ?case by simp
next
  case (Suc n)
  let ?s = "extendTimes L n (loadInitialKeys L s)"
  have keep: "currentPrefix ?s = currentPrefix s" "db ?s = db s" "pageSize ?s = pageSize s"
    using extendTimes_keeps[of L n "loadInitialKeys L s"] loadInitialKeys_scan[of L s] by simp_all
  have N: "0 < (n + 1) * pageSize s" using assms(3) by simp
  from Suc have pre: "displayedKeys ?s =
      take ((n + 1) * pageSize s) (filter (matches L (currentPrefix ?s)) (store_keys (db ?s)))"
    and fin: "\<not> hasMoreKeys ?s \<Longrightarrow>
      displayedKeys ?s = filter (matches L (currentPrefix ?s)) (store_keys (db ?s))"
    unfolding keep by blast+
  have sorted: "sorted_wrt (<) (store_keys (db ?s))" and und: "damaged (db ?s) = None"
    and ps: "0 < pageSize ?s"
    unfolding keep using assms by simp_all
  from loadNextPage_exact[OF sorted und ps N pre fin]
  show ?case unfolding keep by (simp add: algebra_simps)
qed

lemma extendTimes_length:
  assumes "0 < pageSize s"
  shows "length (displayedKeys (extendTimes L n (loadInitialKeys L s))) \<le> (n + 1) * pageSize s"
proof (induction n)
  case 0
  from loadInitialKeys_scan[of L s] assms show ?case by (simp add: scanKeys_fst)
next
  case (Suc n)
  let ?s = "extendTimes L n (loadInitialKeys L s)"
  have keep: "pageSize ?s = pageSize s"
    using extendTimes_keeps[of L n "loadInitialKeys L s"] loadInitialKeys_scan[of L s] by simp
  from loadNextPage_appended[of L ?s] obtain new where
    "displayedKeys (snd (loadNextPage L ?s)) = displayedKeys ?s @ new" "length new \<le> pageSize s"
    unfolding keep by blast
  with Suc show ?case by simp
qed

text \<open>
  Claim C3, as amended. The displayed keys are the keys of all pages loaded so far: with a
  positive page size, after the first-page load and \<open>n\<close> extensions they number at most
  \<open>(n + 1) * pageSize\<close> (at most \<open>pageSize\<close> after the first-page load alone). On a sorted
  store without a damaged entry they are exactly the first \<open>(n + 1) * pageSize\<close> matching
  keys of the store, so their number is \<open>(n + 1) * pageSize\<close> whenever more matching keys
  exist beyond them.
\<close>

theorem page_length_bounds:
  assumes "0 < pageSize s"
  shows "length (displayedKeys (extendTimes ToLower n (loadInitialKeys ToLower s)))
           \<le> (n + 1) * pageSize s \<and>
         (sorted_wrt (<) (store_keys (db s)) \<and> damaged (db s) = None \<longrightarrow>
            displayedKeys (extendTimes ToLower n (loadInitialKeys ToLower s)) =
              take ((n + 1) * pageSize s)
                (filter (matches ToLower (currentPrefix s)) (store_keys (db s))))"
  using extendTimes_length[OF assms, of ToLower n] extendTimes_exact[OF _ _ assms, of ToLower n]
  by blast

theorem page_length_bounds_witness:
  "0 < pageSize (initSession 2 [] fruitStore) \<and>
   sorted_wrt (<) (store_keys fruitStore) \<and> damaged fruitStore = None \<and>
   length (displayedKeys (extendTimes asciiLower 1
      (loadInitialKeys asciiLower (initSession 2 [] fruitStore)))) \<le> 4 \<and>
   displayedKeys (extendTimes asciiLower 1 (loadInitialKeys asciiLower (initSession 2 [] fruitStore)))
     = take 4 (filter (matches asciiLower []) (store_keys fruitStore))"
proof -
  have ps: "pageSize (initSession 2 [] fruitStore) = 2" and d: "db (initSession 2 [] fruitStore) = fruitStore"
    and f: "currentPrefix (initSession 2 [] fruitStore) = []"
    by (simp_all add: initSession_def)
  have h: "0 < pageSize (initSession 2 [] fruitStore)" by (simp add: ps)
  have srt: "sorted_wrt (<) (store_keys fruitStore)" by code_simp
  have und: "damaged fruitStore = None" by (simp add: fruitStore_def)
  from page_length_bounds[OF h, of asciiLower 1] srt und
  show ?thesis by (simp add: ps d f)
qed

text \<open>
  The claim as stated (the displayed keys never exceed the page size) fails after the
  first extension: with page size 2 the three keys of the store are all displayed.
\<close>

theorem page_longer_than_page_size_counterexample:
  "pageSize (extendTimes asciiLower 1 (loadInitialKeys asciiLower (initSession 2 [] fruitStore))) = 2 \<and>
   displayedKeys (extendTimes asciiLower 1 (loadInitialKeys asciiLower (initSession 2 [] fruitStore)))
     = [''Banana'', ''apple'', ''cherry''] \<and>
   \<not> length (displayedKeys (extendTimes asciiLower 1
         (loadInitialKeys asciiLower (initSession 2 [] fruitStore))))
       \<le> pageSize (extendTimes asciiLower 1 (loadInitialKeys asciiLower (initSession 2 [] fruitStore)))"
proof -
  have a: "pageSize (extendTimes asciiLower 1
      (loadInitialKeys asciiLower (initSession 2 [] fruitStore))) = 2" by code_simp
  have b: "displayedKeys (extendTimes asciiLower 1
      (loadInitialKeys asciiLower (initSession 2 [] fruitStore))) = [''Banana'', ''apple'', ''cherry'']"
    by code_simp
  show ?thesis unfolding a b by simp
qed

subsection \<open>The flag after a scan\<close>

lemma scanKeys_stop_at:
  "ys \<noteq> [] \<Longrightarrow> P (last ys) \<Longrightarrow> length (filter P ys) = r \<Longrightarrow>
     scanKeys P r (ys @ rest) = (filter P ys, rest)"
proof (induction ys arbitrary: r)
  case Nil
  then show ?case by simp
next
  case (Cons x ys)
  show ?case
  proof (cases "ys = []")
    case True
    with Cons.prems show ?thesis by auto
  next
    case False
    with Cons.prems have l: "P (last ys)" by simp
    then have "last ys \<in> set (filter P ys)" using False by simp
    then have pos: "0 < length (filter P ys)" by (metis length_pos_if_in_set)
    show ?thesis
    proof (cases "P x")
      case True
      with Cons.prems obtain r' where r: "r = Suc r'" "length (filter P ys) = r'" by auto
      from Cons.IH[OF False l r(2)] True r show ?thesis by simp
    next
      case nP: False
      with Cons.prems have r: "length (filter P ys) = r" by simp
      with pos obtain r' where r': "r = Suc r'" by (cases r) auto
      from Cons.IH[OF False l r] nP r' show ?thesis by simp
    qed
  qed
qed

lemma scanKeys_more_stop:
  assumes "0 < r"
  shows "snd (scanKeys P r xs) \<noteq> [] \<longleftrightarrow>
           (\<exists>ys rest. xs = ys @ rest \<and> ys \<noteq> [] \<and> P (last ys) \<and> length (filter P ys) = r \<and>
              rest \<noteq> [])"
proof
  assume rest: "snd (scanKeys P r xs) \<noteq> []"
  let ?f = "fst (scanKeys P r xs)" and ?rest = "snd (scanKeys P r xs)"
  from scanKeys_rest_after_last[OF assms rest] obtain ys0 where
    ne: "?f \<noteq> []" and xs: "xs = ys0 @ last ?f # ?rest" by blast
  from ne have "last ?f \<in> set ?f" by simp
  then have P: "P (last ?f)" by (simp add: scanKeys_fst) (metis in_set_takeD mem_Collect_eq set_filter)
  from scanKeys_split[where P=P and r=r and xs=xs] obtain ys where
    ys: "xs = ys @ ?rest" "?f = filter P ys" by blast
  from xs ys(1) have "ys @ ?rest = (ys0 @ [last ?f]) @ ?rest" by (metis append_Cons append_Nil append_assoc)
  then have "ys = ys0 @ [last ?f]" by (simp only: append_same_eq)
  then have "ys \<noteq> []" "last ys = last ?f" by simp_all
  moreover from scanKeys_rest_full[OF rest] ys(2) have "length (filter P ys) = r" by simp
  ultimately show "\<exists>ys rest. xs = ys @ rest \<and> ys \<noteq> [] \<and> P (last ys) \<and>
      length (filter P ys) = r \<and> rest \<noteq> []"
    using ys(1) P rest by metis
next
  assume "\<exists>ys rest. xs = ys @ rest \<and> ys \<noteq> [] \<and> P (last ys) \<and> length (filter P ys) = r \<and>
              rest \<noteq> []"
  then obtain ys rest where "xs = ys @ rest" "ys \<noteq> []" "P (last ys)" "length (filter P ys) = r"
    "rest \<noteq> []" by blast
  with scanKeys_stop_at[where ys=ys and P=P and r=r and rest=rest] show "snd (scanKeys P r xs) \<noteq> []" by simp
qed

text \<open>
  Claim C4. On a sorted store without a damaged entry and with a positive page size, the
  first-page load displays the first \<open>pageSize\<close> matching keys of the store, and
  \<open>hasMoreKeys\<close> is true afterwards exactly when the store splits into the keys the scan
  went through, which end with the \<open>pageSize\<close>-th matching key, and at least one more key
  behind them: a raw key follows the position where the scan stopped, whether it matches
  the filter or not. An extension does the same on the keys \<open>after\<close> the last displayed
  key: it appends the first \<open>pageSize\<close> matching keys among them, returns whether it
  appended any, and leaves \<open>hasMoreKeys\<close> true exactly when a raw key follows the
  \<open>pageSize\<close>-th of them. Hence, when \<open>hasMoreKeys\<close> is true but no key after the last
  displayed one matches, the next \<open>loadNextPage\<close> appends nothing, returns false and clears
  the flag.
\<close>

theorem more_flag_ignores_filter:
  assumes "sorted_wrt (<) (store_keys (db s))" and "damaged (db s) = None" and "0 < pageSize s"
  shows "displayedKeys (loadInitialKeys ToLower s) =
           take (pageSize s) (filter (matches ToLower (currentPrefix s)) (store_keys (db s))) \<and>
         (hasMoreKeys (loadInitialKeys ToLower s) \<longleftrightarrow>
            (\<exists>scanned rest. store_keys (db s) = scanned @ rest \<and> scanned \<noteq> [] \<and>
               matches ToLower (currentPrefix s) (last scanned) \<and>
               length (filter (matches ToLower (currentPrefix s)) scanned) = pageSize s \<and>
               rest \<noteq> [])) \<and>
         (hasMoreKeys s \<and> displayedKeys s \<noteq> [] \<and>
          store_keys (db s) = before @ last (displayedKeys s) # after \<longrightarrow>
            displayedKeys (snd (loadNextPage ToLower s)) =
              displayedKeys s @
                take (pageSize s) (filter (matches ToLower (currentPrefix s)) after) \<and>
            (hasMoreKeys (snd (loadNextPage ToLower s)) \<longleftrightarrow>
               (\<exists>scanned rest. after = scanned @ rest \<and> scanned \<noteq> [] \<and>
                  matches ToLower (currentPrefix s) (last scanned) \<and>
                  length (filter (matches ToLower (currentPrefix s)) scanned) = pageSize s \<and>
                  rest \<noteq> [])) \<and>
            (fst (loadNextPage ToLower s) \<longleftrightarrow>
               filter (matches ToLower (currentPrefix s)) after \<noteq> []) \<and>
            (filter (matches ToLower (currentPrefix s)) after = [] \<longrightarrow>
               \<not> fst (loadNextPage ToLower s) \<and>
               displayedKeys (snd (loadNextPage ToLower s)) = displayedKeys s \<and>
               \<not> hasMoreKeys (snd (loadNextPage ToLower s))))"
proof -
  let ?P = "matches ToLower (currentPrefix s)" and ?K = "store_keys (db s)"
  have v: "visibleKeys (db s) 0 = ?K"
    using assms(2) by (simp add: visibleKeys_undamaged)
  have r: "max 1 (pageSize s) = pageSize s" using assms(3) by simp
  note init = loadInitialKeys_scan[of ToLower s, unfolded v r]
  have first: "displayedKeys (loadInitialKeys ToLower s) = take (pageSize s) (filter ?P ?K)"
    using init by (simp add: scanKeys_fst)
  have flag: "hasMoreKeys (loadInitialKeys ToLower s) \<longleftrightarrow>
            (\<exists>scanned rest. ?K = scanned @ rest \<and> scanned \<noteq> [] \<and> ?P (last scanned) \<and>
               length (filter ?P scanned) = pageSize s \<and> rest \<noteq> [])"
    using init scanKeys_more_stop[OF assms(3), of ?P ?K] by simp
  have ext: "displayedKeys (snd (loadNextPage ToLower s)) =
              displayedKeys s @ take (pageSize s) (filter ?P after) \<and>
            (hasMoreKeys (snd (loadNextPage ToLower s)) \<longleftrightarrow>
               (\<exists>scanned rest. after = scanned @ rest \<and> scanned \<noteq> [] \<and> ?P (last scanned) \<and>
                  length (filter ?P scanned) = pageSize s \<and> rest \<noteq> [])) \<and>
            (fst (loadNextPage ToLower s) \<longleftrightarrow> filter ?P after \<noteq> []) \<and>
            (filter ?P after = [] \<longrightarrow>
               \<not> fst (loadNextPage ToLower s) \<and>
               displayedKeys (snd (loadNextPage ToLower s)) = displayedKeys s \<and>
               \<not> hasMoreKeys (snd (loadNextPage ToLower s)))"
    if more: "hasMoreKeys s" and ne: "displayedKeys s \<noteq> []"
      and K: "?K = before @ last (displayedKeys s) # after"
  proof -
    have j: "length before < length ?K" "last (displayedKeys s) = ?K ! length before"
      by (subst K, simp)+
    have D: "drop (Suc (length before)) ?K = after" by (subst K) simp
    note run = loadNextPage_run[OF assms(1,2) more ne j, of ToLower, unfolded D]
    have keys: "displayedKeys (snd (loadNextPage ToLower s)) =
              displayedKeys s @ take (pageSize s) (filter ?P after)"
      using run(1) by (simp add: scanKeys_fst)
    have fl: "hasMoreKeys (snd (loadNextPage ToLower s)) \<longleftrightarrow>
               (\<exists>scanned rest. after = scanned @ rest \<and> scanned \<noteq> [] \<and> ?P (last scanned) \<and>
                  length (filter ?P scanned) = pageSize s \<and> rest \<noteq> [])"
      using run(2) scanKeys_more_stop[OF assms(3), of ?P after] by simp
    have ret: "fst (loadNextPage ToLower s) \<longleftrightarrow> filter ?P after \<noteq> []"
      using loadNextPage_returns_appended[of ToLower s] keys assms(3) by simp
    have none: "\<not> fst (loadNextPage ToLower s) \<and>
               displayedKeys (snd (loadNextPage ToLower s)) = displayedKeys s \<and>
               \<not> hasMoreKeys (snd (loadNextPage ToLower s))" if e: "filter ?P after = []"
    proof -
      have "\<not> hasMoreKeys (snd (loadNextPage ToLower s))"
      proof
        assume "hasMoreKeys (snd (loadNextPage ToLower s))"
        with fl obtain scanned rest where a: "after = scanned @ rest"
          "length (filter ?P scanned) = pageSize s" by blast
        from a(1) e have "filter ?P scanned = []" by simp
        with a(2) assms(3) show False by simp
      qed
      with ret keys e show ?thesis by simp
    qed
    from keys fl ret none show ?thesis by blast
  qed
  from first flag ext show ?thesis by blast
qed

theorem more_flag_ignores_filter_witness:
  "sorted_wrt (<) (store_keys sparseStore) \<and> damaged sparseStore = None \<and>
   0 < pageSize (initSession 2 ''a'' sparseStore) \<and>
   store_keys sparseStore = [''a1'', ''a2'', ''a3'', ''a4'', ''b''] \<and>
   displayedKeys (loadInitialKeys asciiLower (initSession 2 ''a'' sparseStore)) = [''a1'', ''a2''] \<and>
   hasMoreKeys (loadInitialKeys asciiLower (initSession 2 ''a'' sparseStore)) \<and>
   fst (loadNextPage asciiLower (loadInitialKeys asciiLower (initSession 2 ''a'' sparseStore))) \<and>
   displayedKeys (extendTimes asciiLower 1
      (loadInitialKeys asciiLower (initSession 2 ''a'' sparseStore)))
     = [''a1'', ''a2'', ''a3'', ''a4''] \<and>
   hasMoreKeys (extendTimes asciiLower 1
      (loadInitialKeys asciiLower (initSession 2 ''a'' sparseStore))) \<and>
   filter (matches asciiLower ''a'') [''b''] = [] \<and>
   \<not> fst (loadNextPage asciiLower (extendTimes asciiLower 1
      (loadInitialKeys asciiLower (initSession 2 ''a'' sparseStore)))) \<and>
   displayedKeys (extendTimes asciiLower 2
      (loadInitialKeys asciiLower (initSession 2 ''a'' sparseStore)))
     = [''a1'', ''a2'', ''a3'', ''a4''] \<and>
   \<not> hasMoreKeys (extendTimes asciiLower 2
      (loadInitialKeys asciiLower (initSession 2 ''a'' sparseStore)))"
proof -
  let ?P = "matches asciiLower ''a''"
  let ?s0 = "initSession 2 ''a'' sparseStore"
  let ?s1 = "loadInitialKeys asciiLower ?s0"
  let ?s2 = "snd (loadNextPage asciiLower ?s1)"
  let ?s3 = "snd (loadNextPage asciiLower ?s2)"
  have srt: "sorted_wrt (<) (store_keys sparseStore)" by code_simp
  have und: "damaged sparseStore = None" by (simp add: sparseStore_def)
  have K: "store_keys sparseStore = [''a1'', ''a2'', ''a3'', ''a4'', ''b'']" by code_simp
  have s0: "db ?s0 = sparseStore" "pageSize ?s0 = 2" "currentPrefix ?s0 = ''a''"
    by (simp_all add: initSession_def)
  have s1: "db ?s1 = sparseStore" "pageSize ?s1 = 2" "currentPrefix ?s1 = ''a''"
    using loadInitialKeys_scan[of asciiLower ?s0] by (simp_all add: s0)
  have s2: "db ?s2 = sparseStore" "pageSize ?s2 = 2" "currentPrefix ?s2 = ''a''"
    using loadNextPage_keeps[of asciiLower ?s1] by (simp_all add: s1)
  have m: "?P ''a1''" "?P ''a2''" "?P ''a3''" "?P ''a4''" "\<not> ?P ''b''" by code_simp+
  have h0: "sorted_wrt (<) (store_keys (db ?s0))" "damaged (db ?s0) = None" "0 < pageSize ?s0"
    using srt und by (simp_all add: s0)
  have h1: "sorted_wrt (<) (store_keys (db ?s1))" "damaged (db ?s1) = None" "0 < pageSize ?s1"
    using srt und by (simp_all add: s1)
  have h2: "sorted_wrt (<) (store_keys (db ?s2))" "damaged (db ?s2) = None" "0 < pageSize ?s2"
    using srt und by (simp_all add: s2)
  note t0 = more_flag_ignores_filter[OF h0, of asciiLower, unfolded s0 K]
  from t0 have k1: "displayedKeys ?s1 = [''a1'', ''a2'']" by (simp add: m)
  have "\<exists>scanned rest. [''a1'', ''a2'', ''a3'', ''a4'', ''b''] = scanned @ rest \<and> scanned \<noteq> [] \<and>
          ?P (last scanned) \<and> length (filter ?P scanned) = 2 \<and> rest \<noteq> []"
    by (rule exI[of _ "[''a1'', ''a2'']"], rule exI[of _ "[''a3'', ''a4'', ''b'']"]) (simp add: m)
  with t0 have f1: "hasMoreKeys ?s1" by blast
  have d1: "[''a1'', ''a2'', ''a3'', ''a4'', ''b''] = [''a1''] @ last (displayedKeys ?s1) # [''a3'', ''a4'', ''b'']"
    by (simp add: k1)
  note t1 = more_flag_ignores_filter[OF h1, of asciiLower "[''a1'']" "[''a3'', ''a4'', ''b'']",
      unfolded s1 K, THEN conjunct2, THEN conjunct2, rule_format, OF conjI[OF f1 conjI[OF _ d1]]]
  have ne1: "displayedKeys ?s1 \<noteq> []" by (simp add: k1)
  from t1[OF ne1] have k2: "displayedKeys ?s2 = [''a1'', ''a2'', ''a3'', ''a4'']"
    and r2: "fst (loadNextPage asciiLower ?s1)"
    by (simp_all add: m k1)
  have "\<exists>scanned rest. [''a3'', ''a4'', ''b''] = scanned @ rest \<and> scanned \<noteq> [] \<and>
          ?P (last scanned) \<and> length (filter ?P scanned) = 2 \<and> rest \<noteq> []"
    by (rule exI[of _ "[''a3'', ''a4'']"], rule exI[of _ "[''b'']"]) (simp add: m)
  with t1[OF ne1] have f2: "hasMoreKeys ?s2" by blast
  have d2: "[''a1'', ''a2'', ''a3'', ''a4'', ''b''] = [''a1'', ''a2'', ''a3''] @ last (displayedKeys ?s2) # [''b'']"
    by (simp add: k2)
  have ne2: "displayedKeys ?s2 \<noteq> []" by (simp add: k2)
  note t2 = more_flag_ignores_filter[OF h2, of asciiLower "[''a1'', ''a2'', ''a3'']" "[''b'']",
      unfolded s2 K, THEN conjunct2, THEN conjunct2, rule_format, OF conjI[OF f2 conjI[OF ne2 d2]]]
  have none: "filter ?P [''b''] = []" by (simp add: m)
  from t2[THEN conjunct2, THEN conjunct2, THEN conjunct2, rule_format, OF none]
  have k3: "displayedKeys ?s3 = [''a1'', ''a2'', ''a3'', ''a4'']"
    and r3: "\<not> fst (loadNextPage asciiLower ?s2)" and f3: "\<not> hasMoreKeys ?s3"
    by (simp_all add: k2)
  have e1: "extendTimes asciiLower 1 ?s1 = ?s2" by (simp add: numeral_eq_Suc)
  have e2: "extendTimes asciiLower 2 ?s1 = ?s3" by (simp add: numeral_eq_Suc)
  show ?thesis unfolding e1 e2 using srt und K k1 f1 r2 k2 f2 none r3 k3 f3 by (simp add: s0)
qed

subsection \<open>Iterator errors\<close>

text \<open>
  Claim C6. The store \<open>damagedStore\<close> has four entries and the fourth cannot be read. With
  page size 2 the first page loads \<open>a\<close> and \<open>b\<close> without error. The extension appends \<open>c\<close>, its
  iterator then fails on the fourth entry (\<open>iter.Error()\<close> is set), and \<open>loadNextPage\<close>
  returns true with the status line untouched: it never reads \<open>iter.Error()\<close>. The
  first-page load does: with page size 4 the same failure keeps \<open>a\<close>, \<open>b\<close>, \<open>c\<close> and sets the
  status to the error.
\<close>

theorem extend_hides_iterator_error:
  "displayedKeys (loadInitialKeys asciiLower (initSession 2 [] damagedStore)) = [''a'', ''b''] \<and>
   hasMoreKeys (loadInitialKeys asciiLower (initSession 2 [] damagedStore)) \<and>
   statusMessage (loadInitialKeys asciiLower (initSession 2 [] damagedStore)) = [] \<and>
   iter_Error (fst (snd (loadNextPage_loop asciiLower
       (loadInitialKeys asciiLower (initSession 2 [] damagedStore))
       (snd (iter_Next (snd (iter_Seek ''b'' (db_NewIterator damagedStore))))) 0)))
     = Some ErrCorrupted \<and>
   fst (loadNextPage asciiLower (loadInitialKeys asciiLower (initSession 2 [] damagedStore))) \<and>
   displayedKeys (snd (loadNextPage asciiLower
       (loadInitialKeys asciiLower (initSession 2 [] damagedStore)))) = [''a'', ''b'', ''c''] \<and>
   statusMessage (snd (loadNextPage asciiLower
       (loadInitialKeys asciiLower (initSession 2 [] damagedStore)))) = [] \<and>
   displayedKeys (loadInitialKeys asciiLower (initSession 4 [] damagedStore)) = [''a'', ''b'', ''c''] \<and>
   statusMessage (loadInitialKeys asciiLower (initSession 4 [] damagedStore))
     = ''[red]Error: leveldb: corruption''"
proof -
  have "displayedKeys (loadInitialKeys asciiLower (initSession 2 [] damagedStore)) = [''a'', ''b'']"
    by code_simp
  moreover have "hasMoreKeys (loadInitialKeys asciiLower (initSession 2 [] damagedStore))"
    by code_simp
  moreover have "statusMessage (loadInitialKeys asciiLower (initSession 2 [] damagedStore)) = []"
    by code_simp
  moreover have "iter_Error (fst (snd (loadNextPage_loop asciiLower
       (loadInitialKeys asciiLower (initSession 2 [] damagedStore))
       (snd (iter_Next (snd (iter_Seek ''b'' (db_NewIterator damagedStore))))) 0)))
     = Some ErrCorrupted"
    by code_simp
  moreover have "fst (loadNextPage asciiLower (loadInitialKeys asciiLower (initSession 2 [] damagedStore)))"
    by code_simp
  moreover have "displayedKeys (snd (loadNextPage asciiLower
       (loadInitialKeys asciiLower (initSession 2 [] damagedStore)))) = [''a'', ''b'', ''c'']"
    by code_simp
  moreover have "statusMessage (snd (loadNextPage asciiLower
       (loadInitialKeys asciiLower (initSession 2 [] damagedStore)))) = []"
    by code_simp
  moreover have "displayedKeys (loadInitialKeys asciiLower (initSession 4 [] damagedStore))
     = [''a'', ''b'', ''c'']"
    by code_simp
  moreover have "statusMessage (loadInitialKeys asciiLower (initSession 4 [] damagedStore))
     = ''[red]Error: leveldb: corruption''"
    by code_simp
  ultimately show ?thesis by simp
qed

theorem extend_hides_iterator_error_witness:
  "iter_Error (fst (snd (loadNextPage_loop asciiLower
       (loadInitialKeys asciiLower (initSession 2 [] damagedStore))
       (snd (iter_Next (snd (iter_Seek ''b'' (db_NewIterator damagedStore))))) 0)))
     = Some ErrCorrupted \<and>
   statusMessage (snd (loadNextPage asciiLower
       (loadInitialKeys asciiLower (initSession 2 [] damagedStore)))) = []"
  using extend_hides_iterator_error by blast

end
